theory Spec2Isabelle
  imports Complex_Main
begin

section \<open>Data model\<close>

text \<open>
  The component layer of LIFESIM (\<^verbatim>\<open>core/component.py\<close>): the abstract class
  \<^verbatim>\<open>Component\<close>, the per-agent registry \<^verbatim>\<open>ComponentManager\<close>, and the event bus they
  talk to. Python objects are mutable and shared, so component instances live in a heap
  addressed by references; a reference is the identity of the instance.
\<close>

type_synonym ref = nat

text \<open>Exceptions: \<open>TypeError\<close>, \<open>AttributeError\<close>, \<open>NameError\<close> and \<open>RuntimeError\<close> are raised by
  the interpreter (a bad call, an attribute of \<^verbatim>\<open>None\<close>, an unknown name, a dict that changed
  size while it was iterated), \<open>Raised\<close> by the code of a concrete component; \<open>NoObject\<close>
  stands for a reference outside the heap (Python has no such reference; the branch keeps
  the model total).\<close>

datatype error = TypeError | AttributeError | NameError | RuntimeError | Raised string | NoObject

text \<open>Values of type \<^verbatim>\<open>Any\<close>: the JSON-like leaves of payloads and serialized state.\<close>

datatype val = VNone | VBool bool | VInt int | VStr string | VList "val list"
  | VDict "(string \<times> val) list"

type_synonym payload = "string \<rightharpoonup> val"

type_synonym kwargs = "(string \<times> val) list"

text \<open>Modelled from the spec: the class \<^verbatim>\<open>Event\<close> of \<^verbatim>\<open>core/event_bus.py\<close>, which is not
  among the sources. The spec gives it the six fields type, source, target, data,
  priority and timestamp.\<close>

record event =
  ev_type :: string
  ev_source :: string
  ev_target :: string
  ev_data :: payload
  ev_priority :: int
  ev_timestamp :: nat

text \<open>Modelled from the spec: the constructor of \<^verbatim>\<open>Event\<close>. It is called with keyword
  arguments; a keyword that is none of the six fields is rejected, as Python does for an
  unexpected (or repeated) keyword argument.\<close>

definition Event :: "string \<Rightarrow> string \<Rightarrow> string \<Rightarrow> payload \<Rightarrow> int \<Rightarrow> nat \<Rightarrow> kwargs
    \<Rightarrow> error + event" where
  "Event ty src tgt dat prio ts kw =
     (if kw \<noteq> [] then Inl TypeError
      else Inr \<lparr>ev_type = ty, ev_source = src, ev_target = tgt, ev_data = dat,
                ev_priority = prio, ev_timestamp = ts\<rparr>)"

text \<open>Modelled from the spec: the state of \<^verbatim>\<open>EventBus\<close> (\<^verbatim>\<open>core/event_bus.py\<close> is not
  among the sources): the subscription table, from an event type to its handlers in
  registration order; the queue of pending events in emission order; the logical clock.
  The only handlers the component layer registers are bound methods \<^verbatim>\<open>self.on_event\<close>,
  so a handler is the reference of its component.\<close>

record event_bus =
  subscribers :: "string \<Rightarrow> ref list"
  pending :: "event list"
  current_time :: nat

text \<open>The instance attributes \<^verbatim>\<open>Component.__init__\<close> lays out. \<^verbatim>\<open>self.event_bus\<close> is a
  reference to the one bus of the simulation, which the model keeps in the world; the
  attributes a concrete subclass adds are \<open>attrs\<close>. \<open>agent\<close> is the reference to the owning
  agent aggregate, \<open>None\<close> until the manager injects it.\<close>

record obj =
  agent_id :: string
  agent :: "nat option"
  subscribed_events :: "string list"
  attrs :: "string \<rightharpoonup> val"

text \<open>The body of a method of a concrete component is a sequence of steps on \<^verbatim>\<open>self\<close>:
  attribute assignments, calls of the two bus helpers of \<^verbatim>\<open>Component\<close>, and possibly a
  \<^verbatim>\<open>raise\<close> that ends it. In \<open>EmitEvent\<close> the priority and the target are \<open>None\<close> when the
  call leaves the argument out.\<close>

datatype stmt =
    Assign string val
  | Subscribe "string list"
  | EmitEvent string "payload option" "int option" "string option" kwargs
  | Raise string

text \<open>The body of \<open>tick\<close> may, besides these steps, reach the registry that holds the
  component: after construction the manager has injected \<^verbatim>\<open>self.agent\<close>, the agent owns the
  manager, and \<^verbatim>\<open>self.agent.add_component(C, *args, **kwargs)\<close> (which the repository's
  driver calls on an agent) adds to it. \<open>AddComponent\<close> names the class \<open>C\<close> by its identity.
  The step is given to \<open>tick\<close> bodies, where it changes the registry while
  \<^verbatim>\<open>ComponentManager.tick\<close> iterates it; a constructor cannot make it, since \<^verbatim>\<open>self.agent\<close> is
  \<^verbatim>\<open>None\<close> until the constructor has returned.\<close>

datatype tick_stmt =
    Do stmt
  | AddComponent nat "val list" kwargs

text \<open>A component class: its identity (what a dict keyed by the class object compares),
  its \<^verbatim>\<open>__name__\<close>, the identities of its proper base classes, and its methods. The three
  abstract methods and \<open>tick\<close> are \<open>None\<close> where the class does not override them; \<open>cls_init\<close>
  is what its \<^verbatim>\<open>__init__\<close> does after \<^verbatim>\<open>Component.__init__\<close>, given the extra positional
  and keyword arguments.\<close>

record cls =
  cls_id :: nat
  cls_name :: string
  cls_bases :: "nat list"
  cls_init :: "val list \<Rightarrow> kwargs \<Rightarrow> obj \<Rightarrow> stmt list"
  cls_on_event :: "(event \<Rightarrow> obj \<Rightarrow> stmt list) option"
  cls_tick :: "(real \<Rightarrow> obj \<Rightarrow> tick_stmt list) option"
  cls_serialize :: "(obj \<Rightarrow> error + val) option"
  cls_deserialize :: "(val \<Rightarrow> obj \<Rightarrow> stmt list) option"

record component =
  cls_of :: cls
  inst :: obj

text \<open>The calls the properties below speak of, recorded in the order they happen: the method calls
  made on a component, and the calls of \<^verbatim>\<open>EventBus.emit\<close> a component makes.\<close>

datatype call =
    OnEventCall ref event
  | TickCall ref real
  | SerializeCall ref
  | DeserializeCall ref val
  | EmitCall ref event

text \<open>\<^verbatim>\<open>ComponentManager\<close>: \<^verbatim>\<open>_components\<close> is a Python dict keyed by the class object, which
  keeps its keys in insertion order; the model keeps the pairs of class identity and
  instance in that order.\<close>

record manager =
  m_agent_id :: string
  m_agent :: "nat option"
  m_components :: "(nat \<times> ref) list"

text \<open>The world: the bus, the component objects, the record of calls, the failures the bus
  reported, the classes of the program by identity, and the managers. The agent aggregate
  is not among the sources; the spec gives each agent one \<^verbatim>\<open>ComponentManager\<close>, so an agent
  is referred to by the reference under which \<open>managers\<close> holds its manager.\<close>

record world =
  bus :: event_bus
  heap :: "ref \<rightharpoonup> component"
  next_ref :: ref
  trace :: "call list"
  reported :: "(ref \<times> event \<times> error) list"
  classes :: "nat \<rightharpoonup> cls"
  managers :: "nat \<rightharpoonup> manager"

text \<open>What a stretch of the record holds: the handler invocations, the component ticks,
  the component deserializations, and the events handed to the bus.\<close>

fun deliveries :: "call list \<Rightarrow> (ref \<times> event) list" where
  "deliveries [] = []"
| "deliveries (OnEventCall h e # cs) = (h, e) # deliveries cs"
| "deliveries (_ # cs) = deliveries cs"

fun ticks :: "call list \<Rightarrow> (ref \<times> real) list" where
  "ticks [] = []"
| "ticks (TickCall r d # cs) = (r, d) # ticks cs"
| "ticks (_ # cs) = ticks cs"

fun deserializations :: "call list \<Rightarrow> (ref \<times> val) list" where
  "deserializations [] = []"
| "deserializations (DeserializeCall r d # cs) = (r, d) # deserializations cs"
| "deserializations (_ # cs) = deserializations cs"

fun emitted :: "call list \<Rightarrow> event list" where
  "emitted [] = []"
| "emitted (EmitCall r e # cs) = e # emitted cs"
| "emitted (_ # cs) = emitted cs"

text \<open>The part of the record that a step from \<open>w\<close> to \<open>w'\<close> added.\<close>

definition new_calls :: "world \<Rightarrow> world \<Rightarrow> call list" where
  "new_calls w w' = drop (length (trace w)) (trace w')"

section \<open>Python dictionaries with insertion order\<close>

text \<open>\<^verbatim>\<open>d[k] = v\<close>: an existing key keeps its position and takes the new value, a new key
  goes to the end.\<close>

fun dict_set :: "'k \<Rightarrow> 'v \<Rightarrow> ('k \<times> 'v) list \<Rightarrow> ('k \<times> 'v) list" where
  "dict_set k v [] = [(k, v)]"
| "dict_set k v ((k', v') # kvs) =
     (if k' = k then (k', v) # kvs else (k', v') # dict_set k v kvs)"

text \<open>\<^verbatim>\<open>d.get(k)\<close>.\<close>

fun dict_get :: "'k \<Rightarrow> ('k \<times> 'v) list \<Rightarrow> 'v option" where
  "dict_get k [] = None"
| "dict_get k ((k', v') # kvs) = (if k' = k then Some v' else dict_get k kvs)"

text \<open>\<^verbatim>\<open>k in d\<close> and \<^verbatim>\<open>d.values()\<close>.\<close>

definition dict_contains :: "'k \<Rightarrow> ('k \<times> 'v) list \<Rightarrow> bool" where
  "dict_contains k kvs = (k \<in> set (map fst kvs))"

definition dict_values :: "('k \<times> 'v) list \<Rightarrow> 'v list" where
  "dict_values kvs = map snd kvs"

section \<open>The event bus\<close>

text \<open>Modelled from the spec: \<^verbatim>\<open>EventBus.subscribe\<close>, \<^verbatim>\<open>EventBus.emit\<close> and
  \<^verbatim>\<open>EventBus.get_current_time\<close> (\<^verbatim>\<open>core/event_bus.py\<close> is not among the sources).
  \<open>subscribe\<close> takes the event types as a set (the component passes a list, of which only
  the members count) and appends the handler to the registrations of each of them; \<open>emit\<close>
  queues the event without delivering it.\<close>

definition bus_subscribe :: "string list \<Rightarrow> ref \<Rightarrow> event_bus \<Rightarrow> event_bus" where
  "bus_subscribe event_types h b =
     b\<lparr>subscribers := fold (\<lambda>t s. s(t := s t @ [h])) (remdups event_types) (subscribers b)\<rparr>"

text \<open>Modelled from the spec: \<^verbatim>\<open>EventBus.emit\<close> queues the event for a later tick.\<close>

definition bus_emit :: "event \<Rightarrow> event_bus \<Rightarrow> event_bus" where
  "bus_emit e b = b\<lparr>pending := pending b @ [e]\<rparr>"

text \<open>Modelled from the spec: \<^verbatim>\<open>EventBus.get_current_time\<close> reads the logical clock.\<close>

definition get_current_time :: "event_bus \<Rightarrow> nat" where
  "get_current_time b = current_time b"

section \<open>Component\<close>

text \<open>\<^verbatim>\<open>Component.__init__\<close>.\<close>

definition Component_init :: "string \<Rightarrow> obj" where
  "Component_init aid =
     \<lparr>agent_id = aid, agent = None, subscribed_events = [], attrs = Map.empty\<rparr>"

definition upd_inst :: "ref \<Rightarrow> (obj \<Rightarrow> obj) \<Rightarrow> world \<Rightarrow> world" where
  "upd_inst r f w =
     (case heap w r of
        None \<Rightarrow> w
      | Some c \<Rightarrow> w\<lparr>heap := (heap w)(r \<mapsto> c\<lparr>inst := f (inst c)\<rparr>)\<rparr>)"

text \<open>\<^verbatim>\<open>Component.subscribe\<close>: register \<^verbatim>\<open>self.on_event\<close> with the bus, then extend
  \<^verbatim>\<open>self.subscribed_events\<close>.\<close>

definition subscribe :: "ref \<Rightarrow> string list \<Rightarrow> world \<Rightarrow> world" where
  "subscribe r event_types w =
     upd_inst r (\<lambda>i. i\<lparr>subscribed_events := subscribed_events i @ event_types\<rparr>)
       (w\<lparr>bus := bus_subscribe event_types r (bus w)\<rparr>)"

text \<open>\<^verbatim>\<open>Component.emit_event\<close>. \<open>data\<close> is the Python argument (\<open>None\<close> is a value the caller
  may pass, and the default); \<open>priority\<close> and \<open>target\<close> are \<open>None\<close> when the caller leaves
  them out and the defaults 5 and "all" apply. The call of \<^verbatim>\<open>self.event_bus.emit(event)\<close>
  is entered in the record of calls.\<close>

definition emit_event :: "ref \<Rightarrow> string \<Rightarrow> payload option \<Rightarrow> int option \<Rightarrow> string option
    \<Rightarrow> kwargs \<Rightarrow> world \<Rightarrow> error option \<times> world" where
  "emit_event r event_type data priority target kw w =
     (case heap w r of
        None \<Rightarrow> (Some NoObject, w)
      | Some c \<Rightarrow>
          (let data' = (case data of None \<Rightarrow> Map.empty | Some d \<Rightarrow> d);
               priority' = (case priority of None \<Rightarrow> 5 | Some p \<Rightarrow> p);
               target' = (case target of None \<Rightarrow> ''all'' | Some t \<Rightarrow> t)
           in case Event event_type (agent_id (inst c)) target' data' priority'
                     (get_current_time (bus w)) kw of
                Inl e \<Rightarrow> (Some e, w)
              | Inr ev \<Rightarrow>
                  (None, w\<lparr>bus := bus_emit ev (bus w), trace := trace w @ [EmitCall r ev]\<rparr>)))"

text \<open>\<^verbatim>\<open>Component.get_component_name\<close>.\<close>

definition get_component_name :: "component \<Rightarrow> string" where
  "get_component_name c = cls_name (cls_of c)"

subsection \<open>Running the code of a concrete component\<close>

fun exec_stmt :: "ref \<Rightarrow> stmt \<Rightarrow> world \<Rightarrow> error option \<times> world" where
  "exec_stmt r (Assign a v) w = (None, upd_inst r (\<lambda>i. i\<lparr>attrs := (attrs i)(a \<mapsto> v)\<rparr>) w)"
| "exec_stmt r (Subscribe ts) w = (None, subscribe r ts w)"
| "exec_stmt r (EmitEvent t d p tg kw) w = emit_event r t d p tg kw w"
| "exec_stmt r (Raise s) w = (Some (Raised s), w)"

text \<open>An exception ends the body; what was done before it stays done.\<close>

fun exec_body :: "ref \<Rightarrow> stmt list \<Rightarrow> world \<Rightarrow> error option \<times> world" where
  "exec_body r [] w = (None, w)"
| "exec_body r (s # ss) w =
     (case exec_stmt r s w of
        (Some e, w') \<Rightarrow> (Some e, w')
      | (None, w') \<Rightarrow> exec_body r ss w')"

text \<open>A method call \<^verbatim>\<open>component.m(...)\<close>: the call is recorded, the body the class gives
  for the method runs on the instance as it is now. A method the class does not override
  has the body \<^verbatim>\<open>pass\<close> of \<^verbatim>\<open>Component\<close>.\<close>

definition call_method :: "ref \<Rightarrow> call \<Rightarrow> (cls \<Rightarrow> (obj \<Rightarrow> stmt list) option) \<Rightarrow> world
    \<Rightarrow> error option \<times> world" where
  "call_method r c m w =
     (let w1 = w\<lparr>trace := trace w @ [c]\<rparr>
      in case heap w r of
           None \<Rightarrow> (Some NoObject, w1)
         | Some co \<Rightarrow>
             (case m (cls_of co) of
                None \<Rightarrow> (None, w1)
              | Some body \<Rightarrow> exec_body r (body (inst co)) w1))"

definition on_event :: "ref \<Rightarrow> event \<Rightarrow> world \<Rightarrow> error option \<times> world" where
  "on_event r e w =
     call_method r (OnEventCall r e) (\<lambda>c. map_option (\<lambda>f. f e) (cls_on_event c)) w"


text \<open>\<^verbatim>\<open>component.serialize()\<close> returns a value and leaves the component as it is; the
  abstract body \<^verbatim>\<open>pass\<close> returns \<^verbatim>\<open>None\<close>.\<close>

definition serialize :: "ref \<Rightarrow> world \<Rightarrow> (error + val) \<times> world" where
  "serialize r w =
     (let w1 = w\<lparr>trace := trace w @ [SerializeCall r]\<rparr>
      in case heap w r of
           None \<Rightarrow> (Inl NoObject, w1)
         | Some co \<Rightarrow>
             (case cls_serialize (cls_of co) of
                None \<Rightarrow> (Inr VNone, w1)
              | Some f \<Rightarrow> (f (inst co), w1)))"

text \<open>Instantiating a class, \<^verbatim>\<open>component_class(agent_id, event_bus, *args, **kwargs)\<close>:
  a class that leaves an abstract method of \<^verbatim>\<open>Component\<close> without an implementation
  cannot be instantiated (\<^verbatim>\<open>ABC\<close>); otherwise a new object is allocated, laid out by
  \<^verbatim>\<open>Component.__init__\<close>, and the constructor body of the class runs on it.\<close>

definition is_abstract :: "cls \<Rightarrow> bool" where
  "is_abstract c =
     (cls_on_event c = None \<or> cls_serialize c = None \<or> cls_deserialize c = None)"

definition construct :: "cls \<Rightarrow> string \<Rightarrow> val list \<Rightarrow> kwargs \<Rightarrow> world \<Rightarrow> (error + ref) \<times> world"
  where
  "construct c aid args kw w =
     (if is_abstract c then (Inl TypeError, w)
      else
        (let r = next_ref w;
             i = Component_init aid;
             w1 = w\<lparr>heap := (heap w)(r \<mapsto> \<lparr>cls_of = c, inst = i\<rparr>), next_ref := Suc r\<rparr>
         in case exec_body r (cls_init c args kw i) w1 of
              (Some e, w') \<Rightarrow> (Inl e, w')
            | (None, w') \<Rightarrow> (Inr r, w')))"

section \<open>ComponentManager\<close>

text \<open>\<^verbatim>\<open>ComponentManager.__init__\<close>.\<close>

definition ComponentManager :: "string \<Rightarrow> nat option \<Rightarrow> manager" where
  "ComponentManager aid ag = \<lparr>m_agent_id = aid, m_agent = ag, m_components = []\<rparr>"

text \<open>\<^verbatim>\<open>add_component\<close>: construct, inject the agent reference, store under the class,
  return the instance. An exception of the constructor leaves the registry as it was.\<close>

definition add_component :: "manager \<Rightarrow> cls \<Rightarrow> val list \<Rightarrow> kwargs \<Rightarrow> world
    \<Rightarrow> (error + ref \<times> manager) \<times> world" where
  "add_component m component_class args kw w =
     (case construct component_class (m_agent_id m) args kw w of
        (Inl e, w') \<Rightarrow> (Inl e, w')
      | (Inr r, w') \<Rightarrow>
          (Inr (r, m\<lparr>m_components := dict_set (cls_id component_class) r (m_components m)\<rparr>),
           upd_inst r (\<lambda>i. i\<lparr>agent := m_agent m\<rparr>) w'))"

definition get_component :: "manager \<Rightarrow> cls \<Rightarrow> ref option" where
  "get_component m component_class = dict_get (cls_id component_class) (m_components m)"

definition has_component :: "manager \<Rightarrow> cls \<Rightarrow> bool" where
  "has_component m component_class = dict_contains (cls_id component_class) (m_components m)"










text \<open>\<^verbatim>\<open>ComponentManager.serialize\<close>.\<close>

fun serialize_loop :: "ref list \<Rightarrow> (string \<rightharpoonup> val) \<Rightarrow> world
    \<Rightarrow> (error + (string \<rightharpoonup> val)) \<times> world" where
  "serialize_loop [] data w = (Inr data, w)"
| "serialize_loop (r # rs) data w =
     (case heap w r of
        None \<Rightarrow> (Inl NoObject, w)
      | Some c \<Rightarrow>
          (case serialize r w of
             (Inl e, w') \<Rightarrow> (Inl e, w')
           | (Inr v, w') \<Rightarrow> serialize_loop rs (data(get_component_name c \<mapsto> v)) w'))"

definition manager_serialize :: "manager \<Rightarrow> world \<Rightarrow> (error + (string \<rightharpoonup> val)) \<times> world" where
  "manager_serialize m w = serialize_loop (dict_values (m_components m)) Map.empty w"



text \<open>A caller that makes \<open>add_component\<close> calls one after another on one manager. A call
  that raises leaves the registry as it was, and the caller goes on with the next call.
  The result lists, in call order, the class and the returned instance of every call that
  returned.\<close>

fun add_components :: "manager \<Rightarrow> (cls \<times> val list \<times> kwargs) list \<Rightarrow> world
    \<Rightarrow> (nat \<times> ref) list \<times> manager \<times> world" where
  "add_components m [] w = ([], m, w)"
| "add_components m ((c, args, kw) # cs) w =
     (case add_component m c args kw w of
        (Inl e, w') \<Rightarrow> add_components m cs w'
      | (Inr (r, m'), w') \<Rightarrow>
          (case add_components m' cs w' of
             (added, m'', w'') \<Rightarrow> ((cls_id c, r) # added, m'', w'')))"

text \<open>Python's \<^verbatim>\<open>isinstance(obj, c)\<close>: the class of the object is \<open>c\<close> or one of its
  subclasses.\<close>

definition isinstance :: "world \<Rightarrow> ref \<Rightarrow> cls \<Rightarrow> bool" where
  "isinstance w r c =
     (case heap w r of
        None \<Rightarrow> False
      | Some co \<Rightarrow> cls_id (cls_of co) = cls_id c \<or> cls_id c \<in> set (cls_bases (cls_of co)))"

text \<open>Whether a step of a body is a call of \<^verbatim>\<open>self.subscribe\<close>.\<close>

fun is_Subscribe :: "stmt \<Rightarrow> bool" where
  "is_Subscribe (Subscribe ts) = True"
| "is_Subscribe _ = False"

section \<open>Delivery\<close>

text \<open>Modelled from the spec: \<^verbatim>\<open>EventBus.tick\<close> (\<^verbatim>\<open>core/event_bus.py\<close> is not among the
  sources). The clock advances by one step and the queue is drained; the drained events
  are delivered in priority order, lower value first, equal priorities in emission order;
  each event goes to the handlers registered for its type, in registration order: to all
  of them when its target is the broadcast sentinel "all", and otherwise to those whose
  owning agent is its target; a handler that raises is reported and delivery goes on.
  \<open>addressed_to\<close> is the test on the target.\<close>

definition addressed_to :: "world \<Rightarrow> event \<Rightarrow> ref \<Rightarrow> bool" where
  "addressed_to w e h =
     (ev_target e = ''all'' \<or>
      (case heap w h of None \<Rightarrow> False | Some c \<Rightarrow> ev_target e = agent_id (inst c)))"

text \<open>Modelled from the spec: one handler invocation of \<^verbatim>\<open>EventBus.tick\<close>; a handler that
  raises is reported, and the tick goes on.\<close>

definition deliver :: "event \<Rightarrow> ref \<Rightarrow> world \<Rightarrow> world" where
  "deliver e h w =
     (case on_event h e w of
        (None, w') \<Rightarrow> w'
      | (Some err, w') \<Rightarrow> w'\<lparr>reported := reported w' @ [(h, e, err)]\<rparr>)"

text \<open>Modelled from the spec: \<^verbatim>\<open>EventBus.tick\<close> hands one event to the handlers of its
  type, in registration order, leaving out those it does not address.\<close>

fun deliver_to :: "event \<Rightarrow> ref list \<Rightarrow> world \<Rightarrow> world" where
  "deliver_to e [] w = w"
| "deliver_to e (h # hs) w =
     deliver_to e hs (if addressed_to w e h then deliver e h w else w)"

text \<open>Modelled from the spec: the delivery pass of \<^verbatim>\<open>EventBus.tick\<close> over the drained
  events; the handlers of an event are those registered when its turn comes.\<close>

fun deliver_events :: "event list \<Rightarrow> world \<Rightarrow> world" where
  "deliver_events [] w = w"
| "deliver_events (e # es) w =
     deliver_events es (deliver_to e (subscribers (bus w) (ev_type e)) w)"

text \<open>Modelled from the spec: \<^verbatim>\<open>EventBus.tick\<close>. Events emitted during the pass join the
  emptied queue and wait for the next tick.\<close>

definition bus_tick :: "world \<Rightarrow> world" where
  "bus_tick w =
     (let b = bus w;
          evs = sort_key ev_priority (pending b)
      in deliver_events evs
           (w\<lparr>bus := b\<lparr>pending := [], current_time := Suc (current_time b)\<rparr>\<rparr>))"

text \<open>Modelled from the spec: \<^verbatim>\<open>EventBus()\<close>, a bus at time 0 with no subscription and no
  event.\<close>

definition EventBus :: event_bus where
  "EventBus = \<lparr>subscribers = (\<lambda>_. []), pending = [], current_time = 0\<rparr>"

text \<open>A fresh simulation: a new bus and no object.\<close>

definition world0 :: world where
  "world0 =
     \<lparr>bus = EventBus, heap = Map.empty, next_ref = 0, trace = [], reported = [],
      classes = Map.empty, managers = Map.empty\<rparr>"

section \<open>What the code of a component can change\<close>

text \<open>From \<open>w\<close> to \<open>w'\<close> only components in \<open>R\<close> have acted: no object was allocated, the
  clock stands, the record and the queue have grown together by events stamped with the
  time of the clock, each subscription list has
  grown at its end by handlers in \<open>R\<close>, the objects outside \<open>R\<close> are as they were, and no
  object has changed its class, its agent identifier or its agent reference.\<close>

definition evolves :: "ref set \<Rightarrow> world \<Rightarrow> world \<Rightarrow> bool" where
  "evolves R w w' =
     (next_ref w' = next_ref w \<and> current_time (bus w') = current_time (bus w) \<and>
      (\<exists>tr. trace w' = trace w @ tr \<and> pending (bus w') = pending (bus w) @ emitted tr \<and>
         (\<forall>e \<in> set (emitted tr). ev_timestamp e = current_time (bus w))) \<and>
      (\<forall>t. \<exists>hs. subscribers (bus w') t = subscribers (bus w) t @ hs \<and> set hs \<subseteq> R) \<and>
      (\<forall>r. r \<notin> R \<longrightarrow> heap w' r = heap w r) \<and>
      (\<forall>r. map_option (\<lambda>c. (cls_of c, agent_id (inst c), agent (inst c))) (heap w' r)
           = map_option (\<lambda>c. (cls_of c, agent_id (inst c), agent (inst c))) (heap w r)))"

text \<open>The name under which a component is serialized, \<open>None\<close> for a reference that holds
  no object; and the \<open>deserialize\<close> calls that a mapping \<open>data\<close> asks for: for each component
  of the list, in order, whose name is a key of \<open>data\<close>, the component with the value under
  its name.\<close>

definition comp_name :: "world \<Rightarrow> ref \<Rightarrow> string option" where
  "comp_name w r = map_option get_component_name (heap w r)"

fun due :: "world \<Rightarrow> (string \<rightharpoonup> val) \<Rightarrow> ref list \<Rightarrow> (ref \<times> val) list" where
  "due w data [] = []"
| "due w data (r # rs) =
     (case comp_name w r of
        None \<Rightarrow> due w data rs
      | Some n \<Rightarrow> (case data n of None \<Rightarrow> due w data rs | Some d \<Rightarrow> (r, d) # due w data rs))"

text \<open>A subscription table that has only grown, each list at its end.\<close>

definition extends :: "(string \<Rightarrow> ref list) \<Rightarrow> (string \<Rightarrow> ref list) \<Rightarrow> bool" where
  "extends s s' = (\<forall>t. \<exists>a. s' t = s t @ a)"

text \<open>The handler invocations that deliver the events \<open>es\<close>, one after the other, each to
  its list of handlers.\<close>

definition handed :: "event list \<Rightarrow> ref list list \<Rightarrow> (ref \<times> event) list" where
  "handed es hss = concat (map2 (\<lambda>e hs. map (\<lambda>h. (h, e)) hs) es hss)"

section \<open>A small simulation\<close>

text \<open>Concrete components in the manner of the repository's driver, which adds
  \<^verbatim>\<open>NeedsSystem\<close> and \<^verbatim>\<open>Body\<close> to an agent. \<open>Needs\<close> subscribes to "ping" when it is
  constructed and answers every event with a "pong"; \<open>Body\<close> keeps to itself.\<close>

definition Needs :: cls where
  "Needs =
     \<lparr>cls_id = 1, cls_name = ''Needs'', cls_bases = [0],
      cls_init = (\<lambda>args kw i. [Subscribe [''ping'']]),
      cls_on_event = Some (\<lambda>e i. [EmitEvent ''pong'' None None None []]),
      cls_tick = Some (\<lambda>d i. [Do (Assign ''ticked'' (VBool True))]),
      cls_serialize = Some (\<lambda>i. Inr VNone),
      cls_deserialize = Some (\<lambda>d i. [Assign ''state'' d])\<rparr>"

definition Body :: cls where
  "Body =
     \<lparr>cls_id = 2, cls_name = ''Body'', cls_bases = [0],
      cls_init = (\<lambda>args kw i. []),
      cls_on_event = Some (\<lambda>e i. []),
      cls_tick = None,
      cls_serialize = Some (\<lambda>i. Inr VNone),
      cls_deserialize = Some (\<lambda>d i. [Assign ''state'' d])\<rparr>"

text \<open>A world with one \<open>Needs\<close> component of agent "agent_7", not yet subscribed.\<close>

definition agent7_world :: world where
  "agent7_world =
     world0\<lparr>heap := [0 \<mapsto> \<lparr>cls_of = Needs, inst = Component_init ''agent_7''\<rparr>],
            next_ref := 1\<rparr>"

text \<open>\<open>Hunger\<close> is a subclass of \<open>Needs\<close>, with the methods it inherits.\<close>

definition Hunger :: cls where
  "Hunger = Needs\<lparr>cls_id := 3, cls_name := ''Hunger'', cls_bases := [1, 0]\<rparr>"


text \<open>The manager of agent "agent_7" after \<open>add_component(Needs)\<close> and
  \<open>add_component(Body)\<close> in a fresh simulation, and the world they leave.\<close>

definition sim_manager :: manager where
  "sim_manager = \<lparr>m_agent_id = ''agent_7'', m_agent = None, m_components = [(1, 0), (2, 1)]\<rparr>"

definition sim_world :: world where
  "sim_world =
     \<lparr>bus = \<lparr>subscribers = (\<lambda>_. [])(''ping'' := [0]), pending = [], current_time = 0\<rparr>,
      heap = [0 \<mapsto> \<lparr>cls_of = Needs,
                      inst = \<lparr>agent_id = ''agent_7'', agent = None,
                               subscribed_events = [''ping''], attrs = Map.empty\<rparr>\<rparr>,
              1 \<mapsto> \<lparr>cls_of = Body, inst = Component_init ''agent_7''\<rparr>],
      next_ref = 2, trace = [], reported = [], classes = Map.empty, managers = Map.empty\<rparr>"









text \<open>Three events on "ping" waiting in the queue, emitted in the order A, B, C with
  priorities 1, 5 and 1; \<open>Needs\<close> is the one handler of "ping".\<close>

definition evA :: event where
  "evA = \<lparr>ev_type = ''ping'', ev_source = ''A'', ev_target = ''all'', ev_data = Map.empty,
           ev_priority = 1, ev_timestamp = 0\<rparr>"

definition evB :: event where
  "evB = \<lparr>ev_type = ''ping'', ev_source = ''B'', ev_target = ''all'', ev_data = Map.empty,
           ev_priority = 5, ev_timestamp = 0\<rparr>"

definition evC :: event where
  "evC = \<lparr>ev_type = ''ping'', ev_source = ''C'', ev_target = ''all'', ev_data = Map.empty,
           ev_priority = 1, ev_timestamp = 0\<rparr>"

definition abc_world :: world where
  "abc_world = sim_world\<lparr>bus := (bus sim_world)\<lparr>pending := [evA, evB, evC]\<rparr>\<rparr>"

text \<open>\<open>Body\<close> listens to "pong", which \<open>Needs\<close> emits when it handles an event; one "ping"
  is waiting.\<close>

definition pingpong_world :: world where
  "pingpong_world =
     sim_world\<lparr>bus := \<lparr>subscribers = (\<lambda>_. [])(''ping'' := [0], ''pong'' := [1]),
                        pending = [evB], current_time = 0\<rparr>\<rparr>"

text \<open>A second agent, "agent_8", with a \<open>Body\<close> of its own; all three components listen to
  "ping", and two events wait: one for "agent_7", one for all.\<close>

definition ev_to7 :: event where
  "ev_to7 = \<lparr>ev_type = ''ping'', ev_source = ''agent_8'', ev_target = ''agent_7'',
              ev_data = Map.empty, ev_priority = 5, ev_timestamp = 0\<rparr>"

definition two_agents_world :: world where
  "two_agents_world =
     sim_world\<lparr>bus := \<lparr>subscribers = (\<lambda>_. [])(''ping'' := [0, 2, 1]),
                        pending = [ev_to7, evB], current_time = 0\<rparr>,
               heap := (heap sim_world)(2 \<mapsto> \<lparr>cls_of = Body, inst = Component_init ''agent_8''\<rparr>),
               next_ref := 3\<rparr>"

section \<open>Dictionary laws\<close>

lemma dict_get_set: "dict_get k (dict_set k v kvs) = Some v"
  by (induction kvs) auto

lemma dict_get_set_other: "k' \<noteq> k \<Longrightarrow> dict_get k' (dict_set k v kvs) = dict_get k' kvs"
  by (induction kvs) auto

lemma keys_dict_set: "fst ` set (dict_set k v kvs) = insert k (fst ` set kvs)"
proof (induction kvs)
  case Nil
  show ?case by simp
next
  case (Cons p kvs)
  obtain a b where p: "p = (a, b)" by (cases p)
  show ?case
  proof (cases "a = k")
    case True
    then show ?thesis by (simp add: p insert_absorb)
  next
    case False
    then show ?thesis using Cons.IH by (simp add: p insert_commute)
  qed
qed

lemma filter_key_absent: "k \<notin> fst ` set kvs \<Longrightarrow> filter (\<lambda>kv. fst kv = k) kvs = []"
  by (induction kvs) auto

lemma distinct_dict_set: "distinct (map fst kvs) \<Longrightarrow> distinct (map fst (dict_set k v kvs))"
proof (induction kvs)
  case Nil
  show ?case by simp
next
  case (Cons p kvs)
  obtain a b where p: "p = (a, b)" by (cases p)
  from Cons.prems have d: "distinct (map fst kvs)" and n: "a \<notin> fst ` set kvs"
    by (simp_all add: p)
  show ?case
  proof (cases "a = k")
    case True
    then show ?thesis using d n by (simp add: p)
  next
    case False
    then show ?thesis using Cons.IH [OF d] n by (simp add: p keys_dict_set)
  qed
qed

lemma filter_key_distinct:
  "distinct (map fst kvs) \<Longrightarrow> k \<in> fst ` set kvs \<Longrightarrow> length (filter (\<lambda>kv. fst kv = k) kvs) = 1"
proof (induction kvs)
  case Nil
  then show ?case by simp
next
  case (Cons p kvs)
  show ?case
  proof (cases "fst p = k")
    case True
    with Cons.prems have "k \<notin> fst ` set kvs" by auto
    then show ?thesis using True by (simp add: filter_key_absent)
  next
    case False
    with Cons.prems have "k \<in> fst ` set kvs" "distinct (map fst kvs)" by auto
    then show ?thesis using Cons.IH False by simp
  qed
qed

lemma dict_get_None: "dict_get k kvs = None \<longleftrightarrow> \<not> dict_contains k kvs"
proof (induction kvs)
  case Nil
  show ?case by (simp add: dict_contains_def)
next
  case (Cons p kvs)
  obtain a b where p: "p = (a, b)" by (cases p)
  show ?case using Cons.IH by (auto simp: p dict_contains_def)
qed

section \<open>Frame lemmas\<close>

lemma deliveries_append: "deliveries (a @ b) = deliveries a @ deliveries b"
  by (induction a rule: deliveries.induct) simp_all



lemma emitted_append: "emitted (a @ b) = emitted a @ emitted b"
  by (induction a rule: emitted.induct) simp_all


lemma evolves_refl: "evolves R w w"
  by (simp add: evolves_def)

lemma evolves_trans:
  assumes "evolves R w w1" and "evolves R w1 w2"
  shows "evolves R w w2"
proof -
  from assms(1) obtain tr1 where
    t1: "trace w1 = trace w @ tr1" "pending (bus w1) = pending (bus w) @ emitted tr1"
        "\<forall>e \<in> set (emitted tr1). ev_timestamp e = current_time (bus w)"
    unfolding evolves_def by blast
  from assms(2) obtain tr2 where
    t2: "trace w2 = trace w1 @ tr2" "pending (bus w2) = pending (bus w1) @ emitted tr2"
        "\<forall>e \<in> set (emitted tr2). ev_timestamp e = current_time (bus w1)"
    unfolding evolves_def by blast
  from assms(1) have c1: "current_time (bus w1) = current_time (bus w)"
    unfolding evolves_def by blast
  have tr: "\<exists>tr. trace w2 = trace w @ tr \<and> pending (bus w2) = pending (bus w) @ emitted tr \<and>
      (\<forall>e \<in> set (emitted tr). ev_timestamp e = current_time (bus w))"
    using t1 t2 c1 by (intro exI [of _ "tr1 @ tr2"]) (auto simp: emitted_append)
  have subs: "\<exists>hs. subscribers (bus w2) t = subscribers (bus w) t @ hs \<and> set hs \<subseteq> R" for t
  proof -
    from assms obtain h1 h2 where
      "subscribers (bus w1) t = subscribers (bus w) t @ h1" "set h1 \<subseteq> R"
      "subscribers (bus w2) t = subscribers (bus w1) t @ h2" "set h2 \<subseteq> R"
      unfolding evolves_def by blast
    then show ?thesis by (intro exI [of _ "h1 @ h2"]) simp
  qed
  from assms have rest: "next_ref w2 = next_ref w" "current_time (bus w2) = current_time (bus w)"
    "\<forall>r. r \<notin> R \<longrightarrow> heap w2 r = heap w r"
    "\<forall>r. map_option (\<lambda>c. (cls_of c, agent_id (inst c), agent (inst c))) (heap w2 r)
           = map_option (\<lambda>c. (cls_of c, agent_id (inst c), agent (inst c))) (heap w r)"
    unfolding evolves_def by simp_all
  show ?thesis unfolding evolves_def using tr subs rest by blast
qed

lemma evolves_mono: "evolves R w w' \<Longrightarrow> R \<subseteq> S \<Longrightarrow> evolves S w w'"
  unfolding evolves_def by blast

lemma fold_subscribe:
  "fold (\<lambda>t s. s(t := s t @ [h])) ts s t' = s t' @ replicate (count_list ts t') h"
  by (induction ts arbitrary: s) (auto simp: replicate_append_same)

lemma evolves_upd_inst:
  assumes "\<And>i. agent_id (f i) = agent_id i" "\<And>i. agent (f i) = agent i"
  shows "evolves {r} w (upd_inst r f w)"
  unfolding evolves_def upd_inst_def using assms
  by (auto split: option.splits intro: exI [of _ "[]"])

lemma evolves_subscribe: "evolves {r} w (subscribe r ts w)"
proof -
  let ?w1 = "w\<lparr>bus := bus_subscribe ts r (bus w)\<rparr>"
  have "evolves {r} w ?w1"
    unfolding evolves_def bus_subscribe_def
    by (auto simp: fold_subscribe intro: exI [of _ "[]"])
  moreover have "evolves {r} ?w1 (subscribe r ts w)"
    unfolding subscribe_def by (rule evolves_upd_inst) simp_all
  ultimately show ?thesis by (rule evolves_trans)
qed

lemma evolves_emit_event: "emit_event r t d p tg kw w = (x, w') \<Longrightarrow> evolves {r} w w'"
  unfolding emit_event_def evolves_def bus_emit_def Let_def Event_def get_current_time_def
  by (auto split: option.splits sum.splits if_splits intro: exI [of _ "[]"])

lemma evolves_exec_stmt: "exec_stmt r s w = (x, w') \<Longrightarrow> evolves {r} w w'"
proof (cases s)
  case (Assign a v)
  assume "exec_stmt r s w = (x, w')"
  with Assign have "w' = upd_inst r (\<lambda>i. i\<lparr>attrs := (attrs i)(a \<mapsto> v)\<rparr>) w" by simp
  then show ?thesis by (simp add: evolves_upd_inst)
next
  case (Subscribe ts)
  assume "exec_stmt r s w = (x, w')"
  with Subscribe show ?thesis by (auto simp: evolves_subscribe)
next
  case (EmitEvent t d p tg kw)
  assume "exec_stmt r s w = (x, w')"
  with EmitEvent show ?thesis by (auto dest: evolves_emit_event)
next
  case (Raise m)
  assume "exec_stmt r s w = (x, w')"
  with Raise show ?thesis by (auto simp: evolves_refl)
qed

lemma evolves_exec_body: "exec_body r ss w = (x, w') \<Longrightarrow> evolves {r} w w'"
proof (induction ss arbitrary: w)
  case Nil
  then show ?case by (simp add: evolves_refl)
next
  case (Cons s ss)
  obtain y w1 where s: "exec_stmt r s w = (y, w1)" by (cases "exec_stmt r s w")
  have e1: "evolves {r} w w1" by (rule evolves_exec_stmt [OF s])
  show ?case
  proof (cases y)
    case None
    with Cons.prems s have "exec_body r ss w1 = (x, w')" by simp
    from Cons.IH [OF this] e1 show ?thesis by (blast intro: evolves_trans)
  next
    case (Some e)
    with Cons.prems s have "w' = w1" by simp
    with e1 show ?thesis by simp
  qed
qed

lemma emitted_map_EmitCall: "emitted (map (EmitCall r) es) = es"
  by (induction es) simp_all

lemma quiet_map_EmitCall:
  "deliveries (map (EmitCall r) es) = []" "ticks (map (EmitCall r) es) = []"
  "deserializations (map (EmitCall r) es) = []"
  by (induction es) simp_all

lemma trace_exec_stmt:
  "exec_stmt r s w = (x, w') \<Longrightarrow> \<exists>es. trace w' = trace w @ map (EmitCall r) es"
proof (cases s)
  case (Assign a v)
  assume "exec_stmt r s w = (x, w')"
  with Assign show ?thesis by (auto simp: upd_inst_def split: option.splits)
next
  case (Subscribe ts)
  assume "exec_stmt r s w = (x, w')"
  with Subscribe show ?thesis by (auto simp: subscribe_def upd_inst_def split: option.splits)
next
  case (EmitEvent t d p tg kw)
  assume "exec_stmt r s w = (x, w')"
  with EmitEvent have "trace w' = trace w \<or> (\<exists>e. trace w' = trace w @ [EmitCall r e])"
    by (auto simp: emit_event_def Let_def split: option.splits sum.splits)
  then show ?thesis
  proof
    assume "trace w' = trace w"
    then show ?thesis by (intro exI [of _ "[]"]) simp
  next
    assume "\<exists>e. trace w' = trace w @ [EmitCall r e]"
    then obtain e where "trace w' = trace w @ [EmitCall r e]" ..
    then show ?thesis by (intro exI [of _ "[e]"]) simp
  qed
next
  case (Raise m)
  assume "exec_stmt r s w = (x, w')"
  with Raise show ?thesis by auto
qed

lemma trace_exec_body:
  "exec_body r ss w = (x, w') \<Longrightarrow> \<exists>es. trace w' = trace w @ map (EmitCall r) es"
proof (induction ss arbitrary: w)
  case Nil
  then show ?case by simp
next
  case (Cons s ss)
  obtain y w1 where s: "exec_stmt r s w = (y, w1)" by (cases "exec_stmt r s w")
  from trace_exec_stmt [OF s] obtain es1 where e1: "trace w1 = trace w @ map (EmitCall r) es1" ..
  show ?case
  proof (cases y)
    case None
    with Cons.prems s have "exec_body r ss w1 = (x, w')" by simp
    from Cons.IH [OF this] obtain es2 where "trace w' = trace w1 @ map (EmitCall r) es2" ..
    with e1 show ?thesis by (intro exI [of _ "es1 @ es2"]) simp
  next
    case (Some e)
    with Cons.prems s have "w' = w1" by simp
    with e1 show ?thesis by blast
  qed
qed

text \<open>A method call: the call, then nothing but emissions.\<close>

lemma trace_call_method:
  "call_method r c m w = (x, w') \<Longrightarrow> \<exists>es. trace w' = trace w @ c # map (EmitCall r) es"
proof -
  assume a: "call_method r c m w = (x, w')"
  let ?w1 = "w\<lparr>trace := trace w @ [c]\<rparr>"
  show ?thesis
  proof (cases "heap w r")
    case None
    with a show ?thesis by (auto simp: call_method_def Let_def)
  next
    case (Some co)
    show ?thesis
    proof (cases "m (cls_of co)")
      case None
      with a Some show ?thesis by (auto simp: call_method_def Let_def)
    next
      case (Some body)
      with a \<open>heap w r = Some co\<close> have "exec_body r (body (inst co)) ?w1 = (x, w')"
        by (simp add: call_method_def Let_def)
      from trace_exec_body [OF this] show ?thesis by simp
    qed
  qed
qed

lemma evolves_call_method:
  "call_method r c m w = (x, w') \<Longrightarrow> emitted [c] = [] \<Longrightarrow> evolves {r} w w'"
proof -
  assume a: "call_method r c m w = (x, w')" and c: "emitted [c] = []"
  let ?w1 = "w\<lparr>trace := trace w @ [c]\<rparr>"
  have e1: "evolves {r} w ?w1"
    unfolding evolves_def using c by (auto intro: exI [of _ "[c]"])
  show ?thesis
  proof (cases "heap w r")
    case None
    with a e1 show ?thesis by (auto simp: call_method_def Let_def)
  next
    case (Some co)
    show ?thesis
    proof (cases "m (cls_of co)")
      case None
      with a Some e1 show ?thesis by (auto simp: call_method_def Let_def)
    next
      case (Some body)
      with a \<open>heap w r = Some co\<close> have "exec_body r (body (inst co)) ?w1 = (x, w')"
        by (simp add: call_method_def Let_def)
      from evolves_exec_body [OF this] e1 show ?thesis by (blast intro: evolves_trans)
    qed
  qed
qed

section \<open>Component.emit_event\<close>

text \<open>
  C7. A call \<open>emit_event(event_type, data, priority, target)\<close> of a component hands to
  \<open>EventBus.emit\<close> the event whose type is \<open>event_type\<close>, whose source is the component's
  agent identifier, whose timestamp is the bus's current time at the call, whose target
  and priority are the ones passed ("all" and 5 when left out), and whose data is the
  mapping passed, or the empty mapping when \<open>data\<close> is \<open>None\<close>. Nothing else changes but the
  record of that call.
\<close>

theorem emit_event_event:
  assumes "heap w r = Some c"
  shows "emit_event r event_type data priority target [] w =
     (let ev = \<lparr>ev_type = event_type, ev_source = agent_id (inst c),
                 ev_target = (case target of None \<Rightarrow> ''all'' | Some t \<Rightarrow> t),
                 ev_data = (case data of None \<Rightarrow> Map.empty | Some d \<Rightarrow> d),
                 ev_priority = (case priority of None \<Rightarrow> 5 | Some p \<Rightarrow> p),
                 ev_timestamp = get_current_time (bus w)\<rparr>
      in (None, w\<lparr>bus := bus_emit ev (bus w), trace := trace w @ [EmitCall r ev]\<rparr>))"
  using assms by (simp add: emit_event_def Event_def Let_def)

theorem emit_event_event_witness:
  "heap agent7_world 0 = Some \<lparr>cls_of = Needs, inst = Component_init ''agent_7''\<rparr> \<and>
   pending (bus (snd (emit_event 0 ''need_critical'' None None None [] agent7_world))) =
     [\<lparr>ev_type = ''need_critical'', ev_source = ''agent_7'', ev_target = ''all'',
       ev_data = Map.empty, ev_priority = 5, ev_timestamp = 0\<rparr>] \<and>
   pending (bus (snd (emit_event 0 ''eat'' (Some [''food'' \<mapsto> VInt 2]) (Some 1)
       (Some ''agent_8'') [] agent7_world))) =
     [\<lparr>ev_type = ''eat'', ev_source = ''agent_7'', ev_target = ''agent_8'',
       ev_data = [''food'' \<mapsto> VInt 2], ev_priority = 1, ev_timestamp = 0\<rparr>]"
proof -
  have h: "heap agent7_world 0 = Some \<lparr>cls_of = Needs, inst = Component_init ''agent_7''\<rparr>"
    by (simp add: agent7_world_def world0_def)
  have b: "pending (bus agent7_world) = []" "get_current_time (bus agent7_world) = 0"
    by (simp_all add: agent7_world_def world0_def EventBus_def get_current_time_def)
  show ?thesis
    using h b emit_event_event [OF h, of "''need_critical''" None None None]
      emit_event_event [OF h, of "''eat''" "Some [''food'' \<mapsto> VInt 2]" "Some 1" "Some ''agent_8''"]
    by (simp add: Let_def bus_emit_def Component_init_def)
qed

section \<open>ComponentManager.get_component\<close>

text \<open>
  C8. For a component type that is not in the registry, \<open>get_component\<close> returns the
  not-found indicator \<open>None\<close>. The function has no failing branch: its result is always
  an instance or \<open>None\<close>.
\<close>

theorem get_component_absent:
  "\<not> has_component m T \<Longrightarrow> get_component m T = None"
  by (simp add: has_component_def get_component_def dict_get_None)

theorem get_component_absent_witness:
  "\<not> has_component (ComponentManager ''agent_7'' None) Needs \<and>
   get_component (ComponentManager ''agent_7'' None) Needs = None"
proof -
  have h: "\<not> has_component (ComponentManager ''agent_7'' None) Needs"
    by (simp add: has_component_def ComponentManager_def dict_contains_def)
  from h get_component_absent [OF h] show ?thesis by simp
qed

section \<open>Construction and registration\<close>

lemma construct_cases:
  assumes "construct c aid args kw w = (res, w')"
  obtains (abstract) "is_abstract c" "res = Inl TypeError" "w' = w"
  | (built) x where "\<not> is_abstract c"
      "exec_body (next_ref w) (cls_init c args kw (Component_init aid))
         (w\<lparr>heap := (heap w)(next_ref w \<mapsto> \<lparr>cls_of = c, inst = Component_init aid\<rparr>),
            next_ref := Suc (next_ref w)\<rparr>) = (x, w')"
      "res = (case x of Some e \<Rightarrow> Inl e | None \<Rightarrow> Inr (next_ref w))"
proof (cases "is_abstract c")
  case True
  with assms show ?thesis by (intro abstract) (simp_all add: construct_def)
next
  case False
  obtain x w2 where x: "exec_body (next_ref w) (cls_init c args kw (Component_init aid))
         (w\<lparr>heap := (heap w)(next_ref w \<mapsto> \<lparr>cls_of = c, inst = Component_init aid\<rparr>),
            next_ref := Suc (next_ref w)\<rparr>) = (x, w2)"
    by (cases "exec_body (next_ref w) (cls_init c args kw (Component_init aid))
         (w\<lparr>heap := (heap w)(next_ref w \<mapsto> \<lparr>cls_of = c, inst = Component_init aid\<rparr>),
            next_ref := Suc (next_ref w)\<rparr>)")
  with assms False have "w' = w2" "res = (case x of Some e \<Rightarrow> Inl e | None \<Rightarrow> Inr (next_ref w))"
    by (auto simp: construct_def Let_def split: option.splits)
  with x False show ?thesis by (intro built [of x]) simp_all
qed

lemma no_subscribe_exec_stmt:
  "exec_stmt r s w = (x, w') \<Longrightarrow> \<not> is_Subscribe s \<Longrightarrow> subscribers (bus w') = subscribers (bus w)"
  by (cases s)
     (auto simp: upd_inst_def emit_event_def bus_emit_def Let_def split: option.splits sum.splits)

lemma no_subscribe_exec_body:
  "exec_body r ss w = (x, w') \<Longrightarrow> \<forall>s \<in> set ss. \<not> is_Subscribe s \<Longrightarrow>
     subscribers (bus w') = subscribers (bus w)"
proof (induction ss arbitrary: w)
  case Nil
  then show ?case by simp
next
  case (Cons s ss)
  obtain y w1 where s: "exec_stmt r s w = (y, w1)" by (cases "exec_stmt r s w")
  from Cons.prems have ns: "\<not> is_Subscribe s" by simp
  have e1: "subscribers (bus w1) = subscribers (bus w)"
    by (rule no_subscribe_exec_stmt [OF s ns])
  show ?case
  proof (cases y)
    case None
    with Cons.prems s have "exec_body r ss w1 = (x, w')" by simp
    from Cons.IH [OF this] Cons.prems e1 show ?thesis by simp
  next
    case (Some e)
    with Cons.prems s have "w' = w1" by simp
    with e1 show ?thesis by simp
  qed
qed

lemma construct_next_ref:
  assumes "construct c aid args kw w = (res, w')"
  shows "next_ref w \<le> next_ref w'"
  using assms
proof (cases rule: construct_cases)
  case abstract
  then show ?thesis by simp
next
  case (built x)
  from evolves_exec_body [OF built(2)] show ?thesis by (simp add: evolves_def)
qed

lemma construct_subscribers:
  assumes "construct c aid args kw w = (res, w')"
  shows "\<exists>hs. subscribers (bus w') t = subscribers (bus w) t @ hs \<and> set hs \<subseteq> {next_ref w}"
  using assms
proof (cases rule: construct_cases)
  case abstract
  then show ?thesis by simp
next
  case (built x)
  from evolves_exec_body [OF built(2)] show ?thesis by (simp add: evolves_def)
qed

lemma construct_no_subscribe:
  assumes "construct c aid args kw w = (res, w')"
    and "\<forall>s \<in> set (cls_init c args kw (Component_init aid)). \<not> is_Subscribe s"
  shows "subscribers (bus w') = subscribers (bus w)"
  using assms(1)
proof (cases rule: construct_cases)
  case abstract
  then show ?thesis by simp
next
  case (built x)
  from no_subscribe_exec_body [OF built(2) assms(2)] show ?thesis by simp
qed

lemma construct_Inr:
  assumes "construct c aid args kw w = (Inr r, w')"
  shows "r = next_ref w" and "next_ref w' = Suc r"
    and "\<exists>i. heap w' r = Some \<lparr>cls_of = c, inst = i\<rparr> \<and> agent_id i = aid"
proof -
  from assms have all: "r = next_ref w \<and> next_ref w' = Suc r \<and>
    (\<exists>i. heap w' r = Some \<lparr>cls_of = c, inst = i\<rparr> \<and> agent_id i = aid)"
  proof (cases rule: construct_cases)
    case abstract
    then show ?thesis by simp
  next
    case (built x)
    from built(3) have r: "r = next_ref w" by (cases x) simp_all
    let ?w1 = "w\<lparr>heap := (heap w)(next_ref w \<mapsto> \<lparr>cls_of = c, inst = Component_init aid\<rparr>),
            next_ref := Suc (next_ref w)\<rparr>"
    from evolves_exec_body [OF built(2)] have
      n: "next_ref w' = next_ref ?w1" and
      h: "map_option (\<lambda>c. (cls_of c, agent_id (inst c), agent (inst c))) (heap w' r)
           = map_option (\<lambda>c. (cls_of c, agent_id (inst c), agent (inst c))) (heap ?w1 r)"
      by (simp_all add: evolves_def)
    from h r obtain co where co: "heap w' r = Some co" "cls_of co = c" "agent_id (inst co) = aid"
      by (auto simp: Component_init_def)
    have "co = \<lparr>cls_of = c, inst = inst co\<rparr>" using co(2) by (cases co) simp
    with co have "\<exists>i. heap w' r = Some \<lparr>cls_of = c, inst = i\<rparr> \<and> agent_id i = aid"
      by (intro exI [of _ "inst co"]) simp
    with r n show ?thesis by simp
  qed
  from all show "r = next_ref w" by blast
  from all show "next_ref w' = Suc r" by blast
  from all show "\<exists>i. heap w' r = Some \<lparr>cls_of = c, inst = i\<rparr> \<and> agent_id i = aid" by blast
qed

lemma add_component_Inr:
  assumes "add_component m T args kw w = (Inr (r, m'), w')"
  shows "r = next_ref w" and "next_ref w' = Suc r"
    and "m' = m\<lparr>m_components := dict_set (cls_id T) r (m_components m)\<rparr>"
    and "\<exists>i. heap w' r = Some \<lparr>cls_of = T, inst = i\<rparr> \<and> agent_id i = m_agent_id m \<and>
           agent i = m_agent m"
proof -
  obtain res w1 where c: "construct T (m_agent_id m) args kw w = (res, w1)"
    by (cases "construct T (m_agent_id m) args kw w")
  with assms have res: "res = Inr r"
    and w': "w' = upd_inst r (\<lambda>i. i\<lparr>agent := m_agent m\<rparr>) w1"
    and m': "m' = m\<lparr>m_components := dict_set (cls_id T) r (m_components m)\<rparr>"
    by (auto simp: add_component_def split: sum.splits)
  note f = construct_Inr [OF c [unfolded res]]
  from f(3) obtain i where i: "heap w1 r = Some \<lparr>cls_of = T, inst = i\<rparr>" "agent_id i = m_agent_id m"
    by blast
  show "r = next_ref w" by (rule f(1))
  show "next_ref w' = Suc r" using f(2) by (simp add: w' upd_inst_def split: option.splits)
  show "m' = m\<lparr>m_components := dict_set (cls_id T) r (m_components m)\<rparr>" by (rule m')
  show "\<exists>i. heap w' r = Some \<lparr>cls_of = T, inst = i\<rparr> \<and> agent_id i = m_agent_id m \<and>
           agent i = m_agent m"
    using i by (intro exI [of _ "i\<lparr>agent := m_agent m\<rparr>"]) (simp add: w' upd_inst_def)
qed

lemma add_component_next_ref:
  assumes "add_component m T args kw w = (res, w')"
  shows "next_ref w \<le> next_ref w'"
proof -
  obtain x w1 where c: "construct T (m_agent_id m) args kw w = (x, w1)"
    by (cases "construct T (m_agent_id m) args kw w")
  from construct_next_ref [OF c] assms c show ?thesis
    by (auto simp: add_component_def upd_inst_def split: sum.splits option.splits)
qed

lemma add_component_subscribers:
  assumes "add_component m T args kw w = (res, w')"
  shows "\<exists>hs. subscribers (bus w') t = subscribers (bus w) t @ hs \<and> set hs \<subseteq> {next_ref w}"
proof -
  obtain x w1 where c: "construct T (m_agent_id m) args kw w = (x, w1)"
    by (cases "construct T (m_agent_id m) args kw w")
  from assms c have "bus w' = bus w1"
    by (auto simp: add_component_def upd_inst_def split: sum.splits option.splits)
  with construct_subscribers [OF c, of t] show ?thesis by simp
qed

lemma add_component_no_subscribe:
  assumes "add_component m T args kw w = (res, w')"
    and "\<forall>s \<in> set (cls_init T args kw (Component_init (m_agent_id m))). \<not> is_Subscribe s"
  shows "subscribers (bus w') = subscribers (bus w)"
proof -
  obtain x w1 where c: "construct T (m_agent_id m) args kw w = (x, w1)"
    by (cases "construct T (m_agent_id m) args kw w")
  from assms c have "bus w' = bus w1"
    by (auto simp: add_component_def upd_inst_def split: sum.splits option.splits)
  with construct_no_subscribe [OF c assms(2)] show ?thesis by simp
qed

lemma dict_get_append:
  "dict_get k (xs @ ys) = (case dict_get k xs of Some v \<Rightarrow> Some v | None \<Rightarrow> dict_get k ys)"
  by (induction xs) auto

lemma add_components_refs:
  "add_components m calls w = (added, m', w') \<Longrightarrow>
     next_ref w \<le> next_ref w' \<and> (\<forall>r \<in> snd ` set added. next_ref w \<le> r \<and> r < next_ref w') \<and>
     distinct (map snd added)"
proof (induction calls arbitrary: m w added m' w')
  case Nil
  then show ?case by simp
next
  case (Cons call calls)
  obtain c args kw where call: "call = (c, args, kw)" by (cases call)
  obtain res w1 where a: "add_component m c args kw w = (res, w1)"
    by (cases "add_component m c args kw w")
  show ?case
  proof (cases res)
    case (Inl e)
    with Cons.prems call a have "add_components m calls w1 = (added, m', w')" by simp
    from Cons.IH [OF this] add_component_next_ref [OF a] show ?thesis by fastforce
  next
    case (Inr p)
    obtain r m1 where p: "p = (r, m1)" by (cases p)
    obtain added1 m2 w2 where rest: "add_components m1 calls w1 = (added1, m2, w2)"
      by (cases "add_components m1 calls w1")
    from Cons.prems call a Inr p rest
    have eq: "added = (cls_id c, r) # added1" "m' = m2" "w' = w2" by simp_all
    note f = add_component_Inr [OF a [unfolded Inr p]]
    from Cons.IH [OF rest] have ih: "next_ref w1 \<le> next_ref w2"
      "\<forall>x \<in> snd ` set added1. next_ref w1 \<le> x \<and> x < next_ref w2" "distinct (map snd added1)"
      by blast+
    from ih(2) f(2) have "r \<notin> snd ` set added1" by fastforce
    with ih f(1,2) show ?thesis unfolding eq by fastforce
  qed
qed

lemma get_component_dict_set:
  "get_component (m\<lparr>m_components := dict_set (cls_id c) r (m_components m)\<rparr>) T =
     (if cls_id c = cls_id T then Some r else get_component m T)"
  by (simp add: get_component_def dict_get_set dict_get_set_other)

lemma add_components_get:
  "add_components m calls w = (added, m', w') \<Longrightarrow>
     get_component m' T =
       (case dict_get (cls_id T) (rev added) of Some r \<Rightarrow> Some r | None \<Rightarrow> get_component m T)"
proof (induction calls arbitrary: m w added m' w')
  case Nil
  then show ?case by simp
next
  case (Cons call calls)
  obtain c args kw where call: "call = (c, args, kw)" by (cases call)
  obtain res w1 where a: "add_component m c args kw w = (res, w1)"
    by (cases "add_component m c args kw w")
  show ?case
  proof (cases res)
    case (Inl e)
    with Cons.prems call a have "add_components m calls w1 = (added, m', w')" by simp
    from Cons.IH [OF this] show ?thesis .
  next
    case (Inr p)
    obtain r m1 where p: "p = (r, m1)" by (cases p)
    obtain added1 m2 w2 where rest: "add_components m1 calls w1 = (added1, m2, w2)"
      by (cases "add_components m1 calls w1")
    from Cons.prems call a Inr p rest
    have eq: "added = (cls_id c, r) # added1" "m' = m2" "w' = w2" by simp_all
    note f = add_component_Inr [OF a [unfolded Inr p]]
    from Cons.IH [OF rest] show ?thesis
      unfolding eq f(3) by (simp add: dict_get_append get_component_dict_set split: option.splits)
  qed
qed

lemma add_components_keys:
  "add_components m calls w = (added, m', w') \<Longrightarrow>
     fst ` set (m_components m') = fst ` set (m_components m) \<union> fst ` set added \<and>
     (distinct (map fst (m_components m)) \<longrightarrow> distinct (map fst (m_components m')))"
proof (induction calls arbitrary: m w added m' w')
  case Nil
  then show ?case by simp
next
  case (Cons call calls)
  obtain c args kw where call: "call = (c, args, kw)" by (cases call)
  obtain res w1 where a: "add_component m c args kw w = (res, w1)"
    by (cases "add_component m c args kw w")
  show ?case
  proof (cases res)
    case (Inl e)
    with Cons.prems call a have "add_components m calls w1 = (added, m', w')" by simp
    from Cons.IH [OF this] show ?thesis .
  next
    case (Inr p)
    obtain r m1 where p: "p = (r, m1)" by (cases p)
    obtain added1 m2 w2 where rest: "add_components m1 calls w1 = (added1, m2, w2)"
      by (cases "add_components m1 calls w1")
    from Cons.prems call a Inr p rest
    have eq: "added = (cls_id c, r) # added1" "m' = m2" "w' = w2" by simp_all
    note f = add_component_Inr [OF a [unfolded Inr p]]
    from Cons.IH [OF rest] show ?thesis
      unfolding eq f(3) by (auto simp: keys_dict_set distinct_dict_set)
  qed
qed

section \<open>ComponentManager.add_component\<close>

text \<open>
  C3. After any sequence of \<open>add_component\<close> calls on a manager, \<open>get_component(T)\<close> returns
  the instance that the most recent \<open>add_component(T)\<close> returned (and what it returned
  before the sequence when \<open>T\<close> was not added); the registry holds exactly one entry for a
  type that was added, however often, and none for a type that is not present; and the
  instances the calls return are pairwise different, so the later instance has replaced
  the earlier one.
\<close>

theorem add_then_get:
  assumes "add_components m calls w = (added, m', w')"
    and "distinct (map fst (m_components m))"
  shows "get_component m' T =
           (case dict_get (cls_id T) (rev added) of Some r \<Rightarrow> Some r | None \<Rightarrow> get_component m T) \<and>
         length (filter (\<lambda>kv. fst kv = cls_id T) (m_components m')) = (if has_component m' T then 1 else 0) \<and>
         (cls_id T \<in> fst ` set added \<longrightarrow> has_component m' T) \<and>
         distinct (map snd added)"
proof -
  note k = add_components_keys [OF assms(1)]
  from k assms(2) have d: "distinct (map fst (m_components m'))" by blast
  have count: "length (filter (\<lambda>kv. fst kv = cls_id T) (m_components m')) =
      (if has_component m' T then 1 else 0)"
    using d by (simp add: has_component_def dict_contains_def filter_key_distinct filter_key_absent)
  have has: "cls_id T \<in> fst ` set added \<longrightarrow> has_component m' T"
    using k by (simp add: has_component_def dict_contains_def)
  from add_components_get [OF assms(1)] count has add_components_refs [OF assms(1)]
  show ?thesis by blast
qed

theorem add_then_get_witness:
  "distinct (map fst (m_components (ComponentManager ''agent_7'' None))) \<and>
   fst (add_components (ComponentManager ''agent_7'' None)
          [(Needs, [], []), (Body, [], []), (Needs, [], [])] world0) = [(1, 0), (2, 1), (1, 2)] \<and>
   m_components (fst (snd (add_components (ComponentManager ''agent_7'' None)
          [(Needs, [], []), (Body, [], []), (Needs, [], [])] world0))) = [(1, 2), (2, 1)] \<and>
   get_component (fst (snd (add_components (ComponentManager ''agent_7'' None)
          [(Needs, [], []), (Body, [], []), (Needs, [], [])] world0))) Needs = Some 2 \<and>
   length (filter (\<lambda>kv. fst kv = cls_id Needs)
     (m_components (fst (snd (add_components (ComponentManager ''agent_7'' None)
          [(Needs, [], []), (Body, [], []), (Needs, [], [])] world0))))) = 1"
proof -
  let ?run = "add_components (ComponentManager ''agent_7'' None)
          [(Needs, [], []), (Body, [], []), (Needs, [], [])] world0"
  have d: "distinct (map fst (m_components (ComponentManager ''agent_7'' None)))"
    by (simp add: ComponentManager_def)
  have run: "?run = (fst ?run, fst (snd ?run), snd (snd ?run))" by simp
  have a: "fst ?run = [(1, 0), (2, 1), (1, 2)]"
    by (simp add: add_component_def construct_def is_abstract_def Needs_def Body_def Let_def
        world0_def EventBus_def ComponentManager_def Component_init_def upd_inst_def
        subscribe_def bus_subscribe_def)
  have m: "m_components (fst (snd ?run)) = [(1, 2), (2, 1)]"
    by (simp add: add_component_def construct_def is_abstract_def Needs_def Body_def Let_def
        world0_def EventBus_def ComponentManager_def Component_init_def upd_inst_def
        subscribe_def bus_subscribe_def)
  have c: "cls_id Needs = 1" by (simp add: Needs_def)
  have h: "has_component (fst (snd ?run)) Needs"
    by (simp only: has_component_def dict_contains_def m c) simp
  note t = add_then_get [OF run d, of Needs]
  have g: "get_component (fst (snd ?run)) Needs = Some 2"
    using t by (simp only: a c) simp
  have l: "length (filter (\<lambda>kv. fst kv = cls_id Needs) (m_components (fst (snd ?run)))) = 1"
    by (simp only: m c) simp
  from d a m g l show ?thesis by blast
qed

section \<open>Registration under the exact class\<close>

text \<open>
  C9. The registry is keyed by the identity of the class. When \<open>Sub\<close> is a subclass of
  \<open>Base\<close>, a different class, and the manager holds no \<open>Base\<close>, then after
  \<open>add_component(Sub)\<close> the lookup \<open>get_component(Base)\<close> is \<open>None\<close> and \<open>has_component(Base)\<close>
  is false, although the stored instance, found under \<open>Sub\<close>, is an instance of \<open>Base\<close>.
\<close>

theorem subclass_not_found_under_base:
  assumes "add_component m Sub args kw w = (Inr (r, m'), w')"
    and "cls_id Base \<in> set (cls_bases Sub)"
    and "cls_id Sub \<noteq> cls_id Base"
    and "\<not> has_component m Base"
  shows "get_component m' Base = None \<and> \<not> has_component m' Base \<and>
         get_component m' Sub = Some r \<and> isinstance w' r Base"
proof -
  note f = add_component_Inr [OF assms(1)]
  have has: "\<not> has_component m' Base"
    using assms(3,4) unfolding f(3) by (simp add: has_component_def dict_contains_def keys_dict_set)
  then have none: "get_component m' Base = None"
    by (simp add: has_component_def get_component_def dict_get_None)
  have sub: "get_component m' Sub = Some r"
    unfolding f(3) by (simp add: get_component_dict_set)
  from f(4) assms(2) have "isinstance w' r Base" by (auto simp: isinstance_def)
  with has none sub show ?thesis by simp
qed

theorem subclass_not_found_under_base_witness:
  "fst (add_component (ComponentManager ''agent_7'' None) Hunger [] [] world0) =
     Inr (0, \<lparr>m_agent_id = ''agent_7'', m_agent = None, m_components = [(3, 0)]\<rparr>) \<and>
   cls_id Needs \<in> set (cls_bases Hunger) \<and> cls_id Hunger \<noteq> cls_id Needs \<and>
   \<not> has_component (ComponentManager ''agent_7'' None) Needs \<and>
   get_component \<lparr>m_agent_id = ''agent_7'', m_agent = None, m_components = [(3, 0)]\<rparr> Needs = None \<and>
   \<not> has_component \<lparr>m_agent_id = ''agent_7'', m_agent = None, m_components = [(3, 0)]\<rparr> Needs \<and>
   isinstance (snd (add_component (ComponentManager ''agent_7'' None) Hunger [] [] world0)) 0 Needs"
proof -
  let ?m = "ComponentManager ''agent_7'' None"
  let ?m' = "\<lparr>m_agent_id = ''agent_7'', m_agent = None, m_components = [(3, 0)]\<rparr>"
  let ?res = "add_component ?m Hunger [] [] world0"
  have a: "fst ?res = Inr (0, ?m')"
    by (simp add: add_component_def construct_def is_abstract_def Hunger_def Needs_def Let_def
        world0_def EventBus_def ComponentManager_def Component_init_def upd_inst_def
        subscribe_def bus_subscribe_def)
  then have run: "?res = (Inr (0, ?m'), snd ?res)" by (simp add: prod_eq_iff)
  have b: "cls_id Needs \<in> set (cls_bases Hunger)" "cls_id Hunger \<noteq> cls_id Needs"
    by (simp_all add: Hunger_def Needs_def)
  have h: "\<not> has_component ?m Needs"
    by (simp add: has_component_def ComponentManager_def dict_contains_def)
  from subclass_not_found_under_base [OF run b h] a b h show ?thesis by simp
qed

section \<open>The record of a step and the example world\<close>

lemma new_calls_append: "trace w' = trace w @ tr \<Longrightarrow> new_calls w w' = tr"
  by (simp add: new_calls_def)

text \<open>The example manager and world are what the two registrations produce.\<close>

lemma sim_run: "add_components (ComponentManager ''agent_7'' None) [(Needs, [], []), (Body, [], [])] world0
   = ([(1, 0), (2, 1)], sim_manager, sim_world)"
  by (simp add: add_component_def construct_def is_abstract_def Needs_def Body_def Let_def
        world0_def EventBus_def ComponentManager_def Component_init_def upd_inst_def
        subscribe_def bus_subscribe_def sim_manager_def sim_world_def)

section \<open>ComponentManager.tick\<close>


lemma managers_exec_stmt: "exec_stmt r s w = (x, w') \<Longrightarrow> managers w' = managers w"
  by (cases s)
     (auto simp: upd_inst_def subscribe_def emit_event_def Let_def
           split: option.splits sum.splits)

lemma managers_exec_body: "exec_body r ss w = (x, w') \<Longrightarrow> managers w' = managers w"
proof (induction ss arbitrary: w)
  case Nil
  then show ?case by simp
next
  case (Cons s ss)
  obtain y w1 where s: "exec_stmt r s w = (y, w1)" by (cases "exec_stmt r s w")
  have m1: "managers w1 = managers w" by (rule managers_exec_stmt [OF s])
  show ?case
  proof (cases y)
    case None
    with Cons.prems s have "exec_body r ss w1 = (x, w')" by simp
    from Cons.IH [OF this] m1 show ?thesis by simp
  next
    case (Some e)
    with Cons.prems s have "w' = w1" by simp
    with m1 show ?thesis by simp
  qed
qed
















section \<open>ComponentManager.deserialize\<close>



lemma due_append: "due w data (xs @ ys) = due w data xs @ due w data ys"
  by (induction xs) (simp_all split: option.splits)








section \<open>Delivery by the bus\<close>

lemma extends_refl: "extends s s"
  by (simp add: extends_def)

lemma extends_trans: "extends s s1 \<Longrightarrow> extends s1 s2 \<Longrightarrow> extends s s2"
  unfolding extends_def
proof
  fix t
  assume "\<forall>t. \<exists>a. s1 t = s t @ a" "\<forall>t. \<exists>a. s2 t = s1 t @ a"
  then obtain a b where "s1 t = s t @ a" "s2 t = s1 t @ b" by blast
  then show "\<exists>a. s2 t = s t @ a" by (intro exI [of _ "a @ b"]) simp
qed

lemma extends_antisym: "extends s s' \<Longrightarrow> extends s' s \<Longrightarrow> s' = s"
proof
  fix t
  assume "extends s s'" "extends s' s"
  then obtain a b where "s' t = s t @ a" "s t = s' t @ b" unfolding extends_def by blast
  then have "s t = s t @ a @ b" by simp
  then have "a = []" by simp
  with \<open>s' t = s t @ a\<close> show "s' t = s t" by simp
qed

lemma extends_set: "extends s s' \<Longrightarrow> set (s t) \<subseteq> set (s' t)"
  unfolding extends_def by (metis set_append sup_ge1)

lemma evolves_extends: "evolves R w w' \<Longrightarrow> extends (subscribers (bus w)) (subscribers (bus w'))"
  unfolding evolves_def extends_def by blast

lemma evolves_reported: "evolves R w w' \<Longrightarrow> evolves R w (w'\<lparr>reported := x\<rparr>)"
  by (simp add: evolves_def)

lemma addressed_to_evolves: "evolves R w w' \<Longrightarrow> addressed_to w' e h = addressed_to w e h"
proof -
  assume "evolves R w w'"
  then have "map_option (\<lambda>c. (cls_of c, agent_id (inst c), agent (inst c))) (heap w' h)
           = map_option (\<lambda>c. (cls_of c, agent_id (inst c), agent (inst c))) (heap w h)"
    by (simp add: evolves_def)
  then show ?thesis
    by (cases "heap w h"; cases "heap w' h") (auto simp: addressed_to_def)
qed

lemma evolves_on_event:
  assumes "on_event h e w = (x, w')"
  shows "evolves {h} w w'"
proof -
  have "emitted [OnEventCall h e] = []" by simp
  with assms [unfolded on_event_def] show ?thesis by (rule evolves_call_method)
qed

lemma deliver_evolves: "evolves {h} w (deliver e h w)"
proof -
  obtain x w1 where o: "on_event h e w = (x, w1)" by (cases "on_event h e w")
  from evolves_on_event [OF o] show ?thesis
    by (cases x) (simp_all add: deliver_def o evolves_reported)
qed

lemma deliver_trace: "\<exists>tr. trace (deliver e h w) = trace w @ tr \<and> deliveries tr = [(h, e)]"
proof -
  obtain x w1 where o: "on_event h e w = (x, w1)" by (cases "on_event h e w")
  from o obtain es where t: "trace w1 = trace w @ OnEventCall h e # map (EmitCall h) es"
    unfolding on_event_def by (blast dest: trace_call_method)
  have "trace (deliver e h w) = trace w1" by (cases x) (simp_all add: deliver_def o)
  with t show ?thesis
    by (intro exI [of _ "OnEventCall h e # map (EmitCall h) es"]) (simp add: quiet_map_EmitCall)
qed

lemma deliver_to_facts:
  "evolves UNIV w (deliver_to e hs w) \<and>
   (\<exists>tr. trace (deliver_to e hs w) = trace w @ tr \<and>
      deliveries tr = map (\<lambda>h. (h, e)) (filter (addressed_to w e) hs))"
proof (induction hs arbitrary: w)
  case Nil
  show ?case by (simp add: evolves_refl)
next
  case (Cons h hs)
  let ?w1 = "if addressed_to w e h then deliver e h w else w"
  have e1: "evolves UNIV w ?w1"
    by (auto simp: evolves_refl intro: evolves_mono [OF deliver_evolves])
  have same: "addressed_to ?w1 e = addressed_to w e"
    by (rule ext) (rule addressed_to_evolves [OF e1])
  from Cons.IH [of ?w1] obtain tr2 where
    2: "evolves UNIV ?w1 (deliver_to e hs ?w1)" "trace (deliver_to e hs ?w1) = trace ?w1 @ tr2"
       "deliveries tr2 = map (\<lambda>h. (h, e)) (filter (addressed_to ?w1 e) hs)" by blast
  have ev: "evolves UNIV w (deliver_to e (h # hs) w)"
    using evolves_trans [OF e1 2(1)] by simp
  show ?case
  proof (cases "addressed_to w e h")
    case True
    from deliver_trace [of e h w] obtain tr1 where
      1: "trace (deliver e h w) = trace w @ tr1" "deliveries tr1 = [(h, e)]" by blast
    have "trace (deliver_to e (h # hs) w) = trace w @ (tr1 @ tr2)"
      using True 1 2(2) by simp
    moreover have "deliveries (tr1 @ tr2) = map (\<lambda>h. (h, e)) (filter (addressed_to w e) (h # hs))"
      using True 1 2(3) same by (simp add: deliveries_append)
    ultimately show ?thesis using ev by blast
  next
    case False
    have "trace (deliver_to e (h # hs) w) = trace w @ tr2"
      using False 2(2) by simp
    moreover have "deliveries tr2 = map (\<lambda>h. (h, e)) (filter (addressed_to w e) (h # hs))"
      using False 2(3) same by simp
    ultimately show ?thesis using ev by blast
  qed
qed

lemma deliver_events_facts:
  "evolves UNIV w (deliver_events es w) \<and>
   (\<exists>tr hss. trace (deliver_events es w) = trace w @ tr \<and> deliveries tr = handed es hss \<and>
      list_all2 (\<lambda>e hs. \<exists>s. extends (subscribers (bus w)) s \<and>
                   extends s (subscribers (bus (deliver_events es w))) \<and>
                   hs = filter (addressed_to w e) (s (ev_type e))) es hss)"
proof (induction es arbitrary: w)
  case Nil
  show ?case by (auto simp: evolves_refl handed_def intro: exI [of _ "[]"])
next
  case (Cons e es)
  let ?w1 = "deliver_to e (subscribers (bus w) (ev_type e)) w"
  let ?w' = "deliver_events es ?w1"
  from deliver_to_facts [of w e "subscribers (bus w) (ev_type e)"] obtain tr1 where
    1: "evolves UNIV w ?w1" "trace ?w1 = trace w @ tr1"
       "deliveries tr1 = map (\<lambda>h. (h, e)) (filter (addressed_to w e) (subscribers (bus w) (ev_type e)))"
    by blast
  from Cons.IH [of ?w1] obtain tr2 hss where
    2: "evolves UNIV ?w1 ?w'" "trace ?w' = trace ?w1 @ tr2" "deliveries tr2 = handed es hss"
       "list_all2 (\<lambda>e hs. \<exists>s. extends (subscribers (bus ?w1)) s \<and>
                   extends s (subscribers (bus ?w')) \<and>
                   hs = filter (addressed_to ?w1 e) (s (ev_type e))) es hss"
    by blast
  have ev: "evolves UNIV w ?w'" by (rule evolves_trans [OF 1(1) 2(1)])
  have x1: "extends (subscribers (bus w)) (subscribers (bus ?w1))" by (rule evolves_extends [OF 1(1)])
  have x2: "extends (subscribers (bus ?w1)) (subscribers (bus ?w'))" by (rule evolves_extends [OF 2(1)])
  have same: "addressed_to ?w1 = addressed_to w"
    by (intro ext) (rule addressed_to_evolves [OF 1(1)])
  let ?hs = "filter (addressed_to w e) (subscribers (bus w) (ev_type e))"
  let ?P = "\<lambda>e hs. \<exists>s. extends (subscribers (bus w)) s \<and> extends s (subscribers (bus ?w')) \<and>
                   hs = filter (addressed_to w e) (s (ev_type e))"
  have hd: "?P e ?hs"
    by (intro exI [of _ "subscribers (bus w)"]) (simp add: extends_refl evolves_extends [OF ev])
  have tl: "list_all2 ?P es hss"
    using 2(4) unfolding same
    by (rule list_all2_mono) (blast intro: extends_trans [OF x1])
  have "trace (deliver_events (e # es) w) = trace w @ (tr1 @ tr2)" using 1(2) 2(2) by simp
  moreover have "deliveries (tr1 @ tr2) = handed (e # es) (?hs # hss)"
    using 1(3) 2(3) by (simp add: deliveries_append handed_def)
  moreover have "list_all2 ?P (e # es) (?hs # hss)" using hd tl by simp
  ultimately show ?case using ev by (simp only: deliver_events.simps) blast
qed

lemma handed_Nil [simp]: "handed [] hss = []" "handed es [] = []"
  by (simp_all add: handed_def)

lemma handed_Cons [simp]: "handed (e # es) (hs # hss) = map (\<lambda>h. (h, e)) hs @ handed es hss"
  by (simp add: handed_def)

lemma handed_sound:
  "list_all2 P es hss \<Longrightarrow> (h, e) \<in> set (handed es hss) \<Longrightarrow>
     e \<in> set es \<and> (\<exists>hs. P e hs \<and> h \<in> set hs)"
  by (induction rule: list_all2_induct) auto

lemma handed_complete:
  "list_all2 P es hss \<Longrightarrow> e \<in> set es \<Longrightarrow>
     \<exists>hs. P e hs \<and> (\<forall>h \<in> set hs. (h, e) \<in> set (handed es hss))"
  by (induction rule: list_all2_induct) auto

lemma handed_exact:
  "list_all2 (\<lambda>e hs. hs = f e) es hss \<Longrightarrow>
     handed es hss = concat (map (\<lambda>e. map (\<lambda>h. (h, e)) (f e)) es)"
  by (induction rule: list_all2_induct) auto

lemma handed_sorted:
  "list_all2 P es hss \<Longrightarrow> sorted (map ev_priority es) \<Longrightarrow>
     sorted (map (\<lambda>d. ev_priority (snd d)) (handed es hss))"
proof (induction rule: list_all2_induct)
  case Nil
  show ?case by simp
next
  case (Cons e es hs hss)
  from Cons.prems have le: "\<forall>e' \<in> set es. ev_priority e \<le> ev_priority e'"
    and s: "sorted (map ev_priority es)" by auto
  have "\<forall>d \<in> set (handed es hss). snd d \<in> set es"
    using handed_sound [OF Cons.hyps(2)] by auto
  with le have "\<forall>d \<in> set (handed es hss). ev_priority e \<le> ev_priority (snd d)" by blast
  with Cons.IH [OF s] show ?case
    by (auto simp: sorted_append comp_def map_replicate_const)
qed

text \<open>One step of the bus: what was recorded, what was delivered, what is queued.\<close>

lemma bus_tick_facts:
  "\<exists>tr hss. trace (bus_tick w) = trace w @ tr \<and>
     deliveries tr = handed (sort_key ev_priority (pending (bus w))) hss \<and>
     pending (bus (bus_tick w)) = emitted tr \<and>
     list_all2 (\<lambda>e hs. \<exists>s. extends (subscribers (bus w)) s \<and>
                   extends s (subscribers (bus (bus_tick w))) \<and>
                   hs = filter (addressed_to w e) (s (ev_type e)))
       (sort_key ev_priority (pending (bus w))) hss"
proof -
  let ?es = "sort_key ev_priority (pending (bus w))"
  let ?w1 = "w\<lparr>bus := (bus w)\<lparr>pending := [], current_time := Suc (current_time (bus w))\<rparr>\<rparr>"
  have bt: "bus_tick w = deliver_events ?es ?w1" by (simp add: bus_tick_def Let_def)
  have a: "addressed_to ?w1 = addressed_to w" by (intro ext) (simp add: addressed_to_def)
  from deliver_events_facts [of ?w1 ?es] obtain tr hss where
    f: "evolves UNIV ?w1 (deliver_events ?es ?w1)"
       "trace (deliver_events ?es ?w1) = trace ?w1 @ tr" "deliveries tr = handed ?es hss"
       "list_all2 (\<lambda>e hs. \<exists>s. extends (subscribers (bus ?w1)) s \<and>
                   extends s (subscribers (bus (deliver_events ?es ?w1))) \<and>
                   hs = filter (addressed_to ?w1 e) (s (ev_type e))) ?es hss"
    by blast
  from f(1) obtain tr' where
    t': "trace (deliver_events ?es ?w1) = trace ?w1 @ tr'"
        "pending (bus (deliver_events ?es ?w1)) = pending (bus ?w1) @ emitted tr'"
    unfolding evolves_def by blast
  with f(2) have "tr' = tr" by simp
  with t' have p: "pending (bus (bus_tick w)) = emitted tr" by (simp add: bt)
  from f(2) have t: "trace (bus_tick w) = trace w @ tr" by (simp add: bt)
  from f(4) have l: "list_all2 (\<lambda>e hs. \<exists>s. extends (subscribers (bus w)) s \<and>
                   extends s (subscribers (bus (bus_tick w))) \<and>
                   hs = filter (addressed_to w e) (s (ev_type e))) ?es hss"
    unfolding a bt by simp
  from t f(3) p l show ?thesis by blast
qed

lemma bus_tick_clock: "current_time (bus (bus_tick w)) = Suc (current_time (bus w))"
proof -
  let ?es = "sort_key ev_priority (pending (bus w))"
  let ?w1 = "w\<lparr>bus := (bus w)\<lparr>pending := [], current_time := Suc (current_time (bus w))\<rparr>\<rparr>"
  have bt: "bus_tick w = deliver_events ?es ?w1" by (simp add: bus_tick_def Let_def)
  from deliver_events_facts [of ?w1 ?es] have "evolves UNIV ?w1 (deliver_events ?es ?w1)" by blast
  then show ?thesis by (simp add: bt evolves_def)
qed

lemma bus_tick_sound:
  assumes "(h, e) \<in> set (deliveries (new_calls w (bus_tick w)))"
  shows "e \<in> set (pending (bus w)) \<and> h \<in> set (subscribers (bus (bus_tick w)) (ev_type e)) \<and>
         addressed_to w e h"
proof -
  from bus_tick_facts [of w] obtain tr hss where
    f: "trace (bus_tick w) = trace w @ tr"
       "deliveries tr = handed (sort_key ev_priority (pending (bus w))) hss"
       "list_all2 (\<lambda>e hs. \<exists>s. extends (subscribers (bus w)) s \<and>
                   extends s (subscribers (bus (bus_tick w))) \<and>
                   hs = filter (addressed_to w e) (s (ev_type e)))
          (sort_key ev_priority (pending (bus w))) hss" by blast
  from assms f(1,2) have "(h, e) \<in> set (handed (sort_key ev_priority (pending (bus w))) hss)"
    by (simp add: new_calls_append)
  from handed_sound [OF f(3) this] obtain s where
    "e \<in> set (pending (bus w))" "extends s (subscribers (bus (bus_tick w)))"
    "h \<in> set (s (ev_type e))" "addressed_to w e h" by auto
  with extends_set [of s "subscribers (bus (bus_tick w))" "ev_type e"] show ?thesis by blast
qed

lemma bus_tick_complete:
  assumes "e \<in> set (pending (bus w))" "h \<in> set (subscribers (bus w) (ev_type e))"
    "addressed_to w e h"
  shows "(h, e) \<in> set (deliveries (new_calls w (bus_tick w)))"
proof -
  from bus_tick_facts [of w] obtain tr hss where
    f: "trace (bus_tick w) = trace w @ tr"
       "deliveries tr = handed (sort_key ev_priority (pending (bus w))) hss"
       "list_all2 (\<lambda>e hs. \<exists>s. extends (subscribers (bus w)) s \<and>
                   extends s (subscribers (bus (bus_tick w))) \<and>
                   hs = filter (addressed_to w e) (s (ev_type e)))
          (sort_key ev_priority (pending (bus w))) hss" by blast
  from assms(1) have "e \<in> set (sort_key ev_priority (pending (bus w)))" by simp
  from handed_complete [OF f(3) this] obtain s where
    s: "extends (subscribers (bus w)) s"
       "\<forall>h \<in> set (filter (addressed_to w e) (s (ev_type e))).
          (h, e) \<in> set (handed (sort_key ev_priority (pending (bus w))) hss)" by blast
  from assms(2) extends_set [OF s(1), of "ev_type e"] have "h \<in> set (s (ev_type e))" by blast
  with assms(3) s(2) have "(h, e) \<in> set (handed (sort_key ev_priority (pending (bus w))) hss)"
    by simp
  with f(1,2) show ?thesis by (simp add: new_calls_append)
qed

lemma bus_tick_exact:
  assumes "subscribers (bus (bus_tick w)) = subscribers (bus w)"
  shows "deliveries (new_calls w (bus_tick w)) =
     concat (map (\<lambda>e. map (\<lambda>h. (h, e))
                (filter (addressed_to w e) (subscribers (bus w) (ev_type e))))
       (sort_key ev_priority (pending (bus w))))"
proof -
  from bus_tick_facts [of w] obtain tr hss where
    f: "trace (bus_tick w) = trace w @ tr"
       "deliveries tr = handed (sort_key ev_priority (pending (bus w))) hss"
       "list_all2 (\<lambda>e hs. \<exists>s. extends (subscribers (bus w)) s \<and>
                   extends s (subscribers (bus (bus_tick w))) \<and>
                   hs = filter (addressed_to w e) (s (ev_type e)))
          (sort_key ev_priority (pending (bus w))) hss" by blast
  have "list_all2 (\<lambda>e hs. hs = filter (addressed_to w e) (subscribers (bus w) (ev_type e)))
          (sort_key ev_priority (pending (bus w))) hss"
    using f(3) unfolding assms
    by (rule list_all2_mono) (auto dest: extends_antisym)
  from handed_exact [OF this] f(1,2) show ?thesis by (simp add: new_calls_append)
qed

lemma bus_tick_stamps:
  "\<forall>e \<in> set (emitted (new_calls w (bus_tick w))). ev_timestamp e = Suc (current_time (bus w))"
proof -
  let ?es = "sort_key ev_priority (pending (bus w))"
  let ?w1 = "w\<lparr>bus := (bus w)\<lparr>pending := [], current_time := Suc (current_time (bus w))\<rparr>\<rparr>"
  have bt: "bus_tick w = deliver_events ?es ?w1" by (simp add: bus_tick_def Let_def)
  from deliver_events_facts [of ?w1 ?es] have "evolves UNIV ?w1 (deliver_events ?es ?w1)" by blast
  then obtain tr where "trace (deliver_events ?es ?w1) = trace ?w1 @ tr"
    "\<forall>e \<in> set (emitted tr). ev_timestamp e = current_time (bus ?w1)"
    unfolding evolves_def by blast
  then show ?thesis by (simp add: bt new_calls_def)
qed

section \<open>Order of delivery\<close>

text \<open>
  C1. Whatever events were emitted before a call of \<open>EventBus.tick()\<close>, the tick handles
  them one after the other in an order that is ascending in the numeric priority and keeps
  events of equal priority in their emission order: the handler invocations of the tick
  are those of the events of the queue in that order, each event handed to its handlers
  before the next event is taken up, so the priorities along the invocations never
  decrease. With A (priority 1), B (priority 5) and C (priority 1) emitted in this order
  and one shared handler, the handler receives A, C, B.
\<close>

theorem tick_priority_order:
  "\<exists>es hss. length hss = length es \<and>
      deliveries (new_calls w (bus_tick w)) = handed es hss \<and>
      sorted (map ev_priority es) \<and>
      (\<forall>k. filter (\<lambda>e. ev_priority e = k) es = filter (\<lambda>e. ev_priority e = k) (pending (bus w))) \<and>
      sorted (map (\<lambda>d. ev_priority (snd d)) (deliveries (new_calls w (bus_tick w))))"
proof -
  let ?es = "sort_key ev_priority (pending (bus w))"
  from bus_tick_facts [of w] obtain tr hss where
    f: "trace (bus_tick w) = trace w @ tr" "deliveries tr = handed ?es hss"
       "list_all2 (\<lambda>e hs. \<exists>s. extends (subscribers (bus w)) s \<and>
                   extends s (subscribers (bus (bus_tick w))) \<and>
                   hs = filter (addressed_to w e) (s (ev_type e))) ?es hss" by blast
  from f(1,2) have d: "deliveries (new_calls w (bus_tick w)) = handed ?es hss"
    by (simp add: new_calls_append)
  have len: "length hss = length ?es" using list_all2_lengthD [OF f(3)] by simp
  have so: "sorted (map ev_priority ?es)" by simp
  have st: "\<forall>k. filter (\<lambda>e. ev_priority e = k) ?es = filter (\<lambda>e. ev_priority e = k) (pending (bus w))"
    by (simp add: sort_key_stable)
  have "sorted (map (\<lambda>d. ev_priority (snd d)) (handed ?es hss))"
    by (rule handed_sorted [OF f(3) so])
  with d len so st show ?thesis by metis
qed

theorem tick_priority_order_witness:
  "deliveries (new_calls abc_world (bus_tick abc_world)) = [(0, evA), (0, evC), (0, evB)] \<and>
   map (\<lambda>d. ev_priority (snd d)) (deliveries (new_calls abc_world (bus_tick abc_world))) = [1, 1, 5] \<and>
   sorted (map (\<lambda>d. ev_priority (snd d)) (deliveries (new_calls abc_world (bus_tick abc_world))))"
proof -
  have d: "deliveries (new_calls abc_world (bus_tick abc_world)) = [(0, evA), (0, evC), (0, evB)]"
    by (simp add: bus_tick_def Let_def sim_world_def deliver_def on_event_def call_method_def
        addressed_to_def emit_event_def Event_def bus_emit_def get_current_time_def Needs_def
        new_calls_def abc_world_def evA_def evB_def evC_def)
  have p: "map (\<lambda>d. ev_priority (snd d)) [(0::nat, evA), (0, evC), (0, evB)] = [1, 1, 5]"
    by (simp add: evA_def evB_def evC_def)
  from tick_priority_order [of abc_world]
  have "sorted (map (\<lambda>d. ev_priority (snd d)) (deliveries (new_calls abc_world (bus_tick abc_world))))"
    by blast
  with d p show ?thesis by simp
qed

section \<open>Tick isolation\<close>

text \<open>
  C2. The delivery pass of a tick works through the events that were queued before the
  tick, one list of handlers for each of them, and through nothing else. What handlers
  emit during the pass is exactly what the queue holds after the tick. When the queued
  events carry timestamps that are not in the future, no event emitted during the pass is
  among those delivered in it. Every event emitted during the pass is delivered by the
  next tick to every handler that is then subscribed to its type and addressed by it.
\<close>

theorem tick_isolation:
  "(\<exists>hss. length hss = length (pending (bus w)) \<and>
      deliveries (new_calls w (bus_tick w)) = handed (sort_key ev_priority (pending (bus w))) hss) \<and>
   pending (bus (bus_tick w)) = emitted (new_calls w (bus_tick w)) \<and>
   ((\<forall>e \<in> set (pending (bus w)). ev_timestamp e \<le> current_time (bus w)) \<longrightarrow>
      set (emitted (new_calls w (bus_tick w))) \<inter> snd ` set (deliveries (new_calls w (bus_tick w))) = {}) \<and>
   (\<forall>e \<in> set (emitted (new_calls w (bus_tick w))).
      \<forall>h \<in> set (subscribers (bus (bus_tick w)) (ev_type e)).
        addressed_to (bus_tick w) e h \<longrightarrow>
          (h, e) \<in> set (deliveries (new_calls (bus_tick w) (bus_tick (bus_tick w)))))"
proof -
  let ?es = "sort_key ev_priority (pending (bus w))"
  from bus_tick_facts [of w] obtain tr hss where
    f: "trace (bus_tick w) = trace w @ tr" "deliveries tr = handed ?es hss"
       "pending (bus (bus_tick w)) = emitted tr"
       "list_all2 (\<lambda>e hs. \<exists>s. extends (subscribers (bus w)) s \<and>
                   extends s (subscribers (bus (bus_tick w))) \<and>
                   hs = filter (addressed_to w e) (s (ev_type e))) ?es hss" by blast
  from f(1) have n: "new_calls w (bus_tick w) = tr" by (rule new_calls_append)
  have "length hss = length (pending (bus w))" using list_all2_lengthD [OF f(4)] by simp
  with f(2) n have 1: "\<exists>hss. length hss = length (pending (bus w)) \<and>
      deliveries (new_calls w (bus_tick w)) = handed ?es hss" by auto
  from f(3) n have 2: "pending (bus (bus_tick w)) = emitted (new_calls w (bus_tick w))" by simp
  have 3: "set (emitted (new_calls w (bus_tick w))) \<inter> snd ` set (deliveries (new_calls w (bus_tick w))) = {}"
    if old: "\<forall>e \<in> set (pending (bus w)). ev_timestamp e \<le> current_time (bus w)"
  proof -
    have "e \<notin> snd ` set (deliveries (new_calls w (bus_tick w)))"
      if e: "e \<in> set (emitted (new_calls w (bus_tick w)))" for e
    proof
      assume "e \<in> snd ` set (deliveries (new_calls w (bus_tick w)))"
      then obtain h where "(h, e) \<in> set (deliveries (new_calls w (bus_tick w)))" by auto
      from bus_tick_sound [OF this] have "e \<in> set (pending (bus w))" by simp
      with old have "ev_timestamp e \<le> current_time (bus w)" by simp
      moreover from bus_tick_stamps [of w] e have "ev_timestamp e = Suc (current_time (bus w))"
        by simp
      ultimately show False by simp
    qed
    then show ?thesis by blast
  qed
  have 4: "\<forall>e \<in> set (emitted (new_calls w (bus_tick w))).
      \<forall>h \<in> set (subscribers (bus (bus_tick w)) (ev_type e)).
        addressed_to (bus_tick w) e h \<longrightarrow>
          (h, e) \<in> set (deliveries (new_calls (bus_tick w) (bus_tick (bus_tick w))))"
    using bus_tick_complete [of _ "bus_tick w"] by (simp add: 2)
  from 1 2 3 4 show ?thesis by blast
qed

theorem tick_isolation_witness:
  "pending (bus pingpong_world) = [evB] \<and>
   ev_timestamp evB \<le> current_time (bus pingpong_world) \<and>
   deliveries (new_calls pingpong_world (bus_tick pingpong_world)) = [(0, evB)] \<and>
   emitted (new_calls pingpong_world (bus_tick pingpong_world)) =
     [\<lparr>ev_type = ''pong'', ev_source = ''agent_7'', ev_target = ''all'', ev_data = Map.empty,
       ev_priority = 5, ev_timestamp = 1\<rparr>] \<and>
   set (emitted (new_calls pingpong_world (bus_tick pingpong_world))) \<inter>
     snd ` set (deliveries (new_calls pingpong_world (bus_tick pingpong_world))) = {} \<and>
   (1, \<lparr>ev_type = ''pong'', ev_source = ''agent_7'', ev_target = ''all'', ev_data = Map.empty,
       ev_priority = 5, ev_timestamp = 1\<rparr>)
     \<in> set (deliveries (new_calls (bus_tick pingpong_world) (bus_tick (bus_tick pingpong_world))))"
proof -
  let ?w = pingpong_world
  let ?pong = "\<lparr>ev_type = ''pong'', ev_source = ''agent_7'', ev_target = ''all'',
      ev_data = Map.empty, ev_priority = 5, ev_timestamp = 1\<rparr>"
  have q: "pending (bus ?w) = [evB]" by (simp add: pingpong_world_def)
  have st: "ev_timestamp evB \<le> current_time (bus ?w)"
    by (simp add: pingpong_world_def evB_def)
  from q st have old: "\<forall>e \<in> set (pending (bus ?w)). ev_timestamp e \<le> current_time (bus ?w)"
    by simp
  have d: "deliveries (new_calls ?w (bus_tick ?w)) = [(0, evB)]"
    by (simp add: bus_tick_def Let_def sim_world_def deliver_def on_event_def call_method_def
        addressed_to_def emit_event_def Event_def bus_emit_def get_current_time_def Needs_def
        Body_def new_calls_def pingpong_world_def evB_def)
  have p: "pending (bus (bus_tick ?w)) = [?pong]"
    by (simp add: bus_tick_def Let_def sim_world_def deliver_def on_event_def call_method_def
        addressed_to_def emit_event_def Event_def bus_emit_def get_current_time_def Needs_def
        Body_def new_calls_def pingpong_world_def evB_def)
  have s: "subscribers (bus (bus_tick ?w)) ''pong'' = [1]"
    by (simp add: bus_tick_def Let_def sim_world_def deliver_def on_event_def call_method_def
        addressed_to_def emit_event_def Event_def bus_emit_def get_current_time_def Needs_def
        Body_def new_calls_def pingpong_world_def evB_def)
  have a: "addressed_to (bus_tick ?w) ?pong 1" by (simp add: addressed_to_def)
  note t = tick_isolation [of ?w]
  from t p have e: "emitted (new_calls ?w (bus_tick ?w)) = [?pong]" by simp
  from t old have i: "set (emitted (new_calls ?w (bus_tick ?w))) \<inter>
     snd ` set (deliveries (new_calls ?w (bus_tick ?w))) = {}" by blast
  from t e s a have n: "(1, ?pong) \<in> set (deliveries (new_calls (bus_tick ?w) (bus_tick (bus_tick ?w))))"
    by simp
  show ?thesis
    apply (rule conjI [OF q])
    apply (rule conjI [OF st])
    apply (rule conjI [OF d])
    apply (rule conjI [OF e])
    apply (rule conjI [OF i])
    apply (rule n)
    done
qed

section \<open>Targeted delivery\<close>

text \<open>
  C4. Every handler invocation of a tick is for an event of the queue, by a handler
  subscribed to the event's type, and either the event's target is "all" or it is the
  agent identifier of the handler's component. Conversely every handler that is
  subscribed to the type of a queued event when the tick starts, and that the event
  addresses in this sense, is invoked with it. When no handler subscribes during the
  tick, the invocations are exactly these: for each event in delivery order, the
  addressed handlers of its type in registration order.
\<close>

theorem targeted_delivery:
  "(\<forall>d \<in> set (deliveries (new_calls w (bus_tick w))).
      snd d \<in> set (pending (bus w)) \<and>
      fst d \<in> set (subscribers (bus (bus_tick w)) (ev_type (snd d))) \<and>
      (ev_target (snd d) = ''all'' \<or>
       (\<exists>c. heap w (fst d) = Some c \<and> agent_id (inst c) = ev_target (snd d)))) \<and>
   (\<forall>e \<in> set (pending (bus w)). \<forall>h \<in> set (subscribers (bus w) (ev_type e)).
      (ev_target e = ''all'' \<or> (\<exists>c. heap w h = Some c \<and> agent_id (inst c) = ev_target e)) \<longrightarrow>
        (h, e) \<in> set (deliveries (new_calls w (bus_tick w)))) \<and>
   (subscribers (bus (bus_tick w)) = subscribers (bus w) \<longrightarrow>
      deliveries (new_calls w (bus_tick w)) =
        concat (map (\<lambda>e. map (\<lambda>h. (h, e))
                   (filter (\<lambda>h. ev_target e = ''all'' \<or>
                       (\<exists>c. heap w h = Some c \<and> agent_id (inst c) = ev_target e))
                     (subscribers (bus w) (ev_type e))))
          (sort_key ev_priority (pending (bus w)))))"
proof -
  have a: "addressed_to w e h \<longleftrightarrow>
      (ev_target e = ''all'' \<or> (\<exists>c. heap w h = Some c \<and> agent_id (inst c) = ev_target e))" for e h
    by (auto simp: addressed_to_def split: option.splits)
  have 1: "\<forall>d \<in> set (deliveries (new_calls w (bus_tick w))).
      snd d \<in> set (pending (bus w)) \<and>
      fst d \<in> set (subscribers (bus (bus_tick w)) (ev_type (snd d))) \<and>
      (ev_target (snd d) = ''all'' \<or>
       (\<exists>c. heap w (fst d) = Some c \<and> agent_id (inst c) = ev_target (snd d)))"
  proof
    fix d
    assume "d \<in> set (deliveries (new_calls w (bus_tick w)))"
    then have "(fst d, snd d) \<in> set (deliveries (new_calls w (bus_tick w)))" by simp
    from bus_tick_sound [OF this] show "snd d \<in> set (pending (bus w)) \<and>
      fst d \<in> set (subscribers (bus (bus_tick w)) (ev_type (snd d))) \<and>
      (ev_target (snd d) = ''all'' \<or>
       (\<exists>c. heap w (fst d) = Some c \<and> agent_id (inst c) = ev_target (snd d)))"
      by (simp add: a)
  qed
  have 2: "\<forall>e \<in> set (pending (bus w)). \<forall>h \<in> set (subscribers (bus w) (ev_type e)).
      (ev_target e = ''all'' \<or> (\<exists>c. heap w h = Some c \<and> agent_id (inst c) = ev_target e)) \<longrightarrow>
        (h, e) \<in> set (deliveries (new_calls w (bus_tick w)))"
    using bus_tick_complete [of _ w] by (simp add: a)
  have 3: "subscribers (bus (bus_tick w)) = subscribers (bus w) \<longrightarrow>
      deliveries (new_calls w (bus_tick w)) =
        concat (map (\<lambda>e. map (\<lambda>h. (h, e))
                   (filter (\<lambda>h. ev_target e = ''all'' \<or>
                       (\<exists>c. heap w h = Some c \<and> agent_id (inst c) = ev_target e))
                     (subscribers (bus w) (ev_type e))))
          (sort_key ev_priority (pending (bus w))))"
    using bus_tick_exact [of w] by (simp add: a [symmetric] cong: filter_cong)
  from 1 2 3 show ?thesis by blast
qed

theorem targeted_delivery_witness:
  "subscribers (bus (bus_tick two_agents_world)) = subscribers (bus two_agents_world) \<and>
   deliveries (new_calls two_agents_world (bus_tick two_agents_world)) =
     [(0, ev_to7), (1, ev_to7), (0, evB), (2, evB), (1, evB)] \<and>
   (2, ev_to7) \<notin> set (deliveries (new_calls two_agents_world (bus_tick two_agents_world)))"
proof -
  let ?w = two_agents_world
  have s: "subscribers (bus (bus_tick ?w)) = subscribers (bus ?w)"
    by (simp add: bus_tick_def Let_def sim_world_def deliver_def on_event_def call_method_def
        addressed_to_def emit_event_def Event_def bus_emit_def get_current_time_def Needs_def
        Body_def Component_init_def two_agents_world_def evB_def ev_to7_def)
  have q: "sort_key ev_priority (pending (bus ?w)) = [ev_to7, evB]"
    by (simp add: two_agents_world_def evB_def ev_to7_def)
  have t: "subscribers (bus ?w) ''ping'' = [0, 2, 1]" "ev_type ev_to7 = ''ping''"
    "ev_type evB = ''ping''" "ev_target ev_to7 = ''agent_7''" "ev_target evB = ''all''"
    by (simp_all add: two_agents_world_def evB_def ev_to7_def)
  have h: "heap ?w 0 = Some \<lparr>cls_of = Needs,
                      inst = \<lparr>agent_id = ''agent_7'', agent = None,
                               subscribed_events = [''ping''], attrs = Map.empty\<rparr>\<rparr>"
    "heap ?w (Suc 0) = Some \<lparr>cls_of = Body, inst = Component_init ''agent_7''\<rparr>"
    "heap ?w 2 = Some \<lparr>cls_of = Body, inst = Component_init ''agent_8''\<rparr>"
    by (simp_all add: two_agents_world_def sim_world_def)
  from targeted_delivery [of ?w] s
  have "deliveries (new_calls ?w (bus_tick ?w)) =
        concat (map (\<lambda>e. map (\<lambda>h. (h, e))
                   (filter (\<lambda>h. ev_target e = ''all'' \<or>
                       (\<exists>c. heap ?w h = Some c \<and> agent_id (inst c) = ev_target e))
                     (subscribers (bus ?w) (ev_type e))))
          (sort_key ev_priority (pending (bus ?w))))" by blast
  then have d: "deliveries (new_calls ?w (bus_tick ?w)) =
     [(0, ev_to7), (1, ev_to7), (0, evB), (2, evB), (1, evB)]"
    by (simp add: q t h Component_init_def)
  have "(2, ev_to7) \<notin> set [(0::nat, ev_to7), (1, ev_to7), (0, evB), (2, evB), (1, evB)]"
    by (simp add: evB_def ev_to7_def)
  with s d show ?thesis by simp
qed

section \<open>Replacement and subscriptions\<close>

text \<open>
  C10, as amended. \<open>add_component\<close> removes no subscription and reorders none: after the
  call, whether it returned or raised, every list of the bus's subscription table is the
  list before the call followed only by registrations of the instance under construction,
  which are the ones its constructor made through \<open>subscribe\<close>; with a constructor that does
  not subscribe the table is unchanged. So a handler that was registered before the call,
  in particular the \<open>on_event\<close> of an instance that the call replaces, is still registered,
  and the next tick still delivers to it every queued event of its type that addresses
  it.
\<close>

theorem add_component_keeps_subscriptions:
  assumes "add_component m T args kw w = (res, w')"
  shows "(\<forall>t. \<exists>a. subscribers (bus w') t = subscribers (bus w) t @ a \<and> set a \<subseteq> {next_ref w}) \<and>
     ((\<forall>s \<in> set (cls_init T args kw (Component_init (m_agent_id m))). \<not> is_Subscribe s) \<longrightarrow>
        subscribers (bus w') = subscribers (bus w)) \<and>
     (\<forall>e \<in> set (pending (bus w')). \<forall>h \<in> set (subscribers (bus w) (ev_type e)).
        addressed_to w' e h \<longrightarrow> (h, e) \<in> set (deliveries (new_calls w' (bus_tick w'))))"
proof -
  have 1: "\<forall>t. \<exists>a. subscribers (bus w') t = subscribers (bus w) t @ a \<and> set a \<subseteq> {next_ref w}"
    using add_component_subscribers [OF assms] by blast
  have 2: "(\<forall>s \<in> set (cls_init T args kw (Component_init (m_agent_id m))). \<not> is_Subscribe s) \<longrightarrow>
        subscribers (bus w') = subscribers (bus w)"
    using add_component_no_subscribe [OF assms] by blast
  have 3: "\<forall>e \<in> set (pending (bus w')). \<forall>h \<in> set (subscribers (bus w) (ev_type e)).
        addressed_to w' e h \<longrightarrow> (h, e) \<in> set (deliveries (new_calls w' (bus_tick w')))"
  proof (intro ballI impI)
    fix e h
    assume e: "e \<in> set (pending (bus w'))" and h: "h \<in> set (subscribers (bus w) (ev_type e))"
      and a: "addressed_to w' e h"
    from 1 obtain b where "subscribers (bus w') (ev_type e) = subscribers (bus w) (ev_type e) @ b"
      by blast
    with h have h': "h \<in> set (subscribers (bus w') (ev_type e))" by simp
    show "(h, e) \<in> set (deliveries (new_calls w' (bus_tick w')))"
      by (rule bus_tick_complete [OF e h' a])
  qed
  from 1 2 3 show ?thesis by blast
qed

theorem add_component_keeps_subscriptions_witness:
  "fst (add_component sim_manager Needs [] [] abc_world) =
     Inr (2, \<lparr>m_agent_id = ''agent_7'', m_agent = None, m_components = [(1, 2), (2, 1)]\<rparr>) \<and>
   get_component sim_manager Needs = Some 0 \<and>
   subscribers (bus abc_world) ''ping'' = [0] \<and>
   subscribers (bus (snd (add_component sim_manager Needs [] [] abc_world))) ''ping'' = [0, 2] \<and>
   (0, evA) \<in> set (deliveries (new_calls (snd (add_component sim_manager Needs [] [] abc_world))
                       (bus_tick (snd (add_component sim_manager Needs [] [] abc_world)))))"
proof -
  let ?res = "add_component sim_manager Needs [] [] abc_world"
  let ?w' = "snd ?res"
  have r: "fst ?res =
     Inr (2, \<lparr>m_agent_id = ''agent_7'', m_agent = None, m_components = [(1, 2), (2, 1)]\<rparr>)"
    by (simp add: add_component_def construct_def is_abstract_def Needs_def Let_def
        abc_world_def sim_world_def sim_manager_def Component_init_def upd_inst_def
        subscribe_def bus_subscribe_def)
  have run: "?res = (fst ?res, ?w')" by simp
  have g: "get_component sim_manager Needs = Some 0"
    by (simp add: get_component_def sim_manager_def Needs_def)
  have s0: "subscribers (bus abc_world) ''ping'' = [0]"
    by (simp add: abc_world_def sim_world_def)
  have s1: "subscribers (bus ?w') ''ping'' = [0, 2]"
    by (simp add: add_component_def construct_def is_abstract_def Needs_def Let_def
        abc_world_def sim_world_def sim_manager_def Component_init_def upd_inst_def
        subscribe_def bus_subscribe_def)
  have p: "pending (bus ?w') = [evA, evB, evC]"
    by (simp add: add_component_def construct_def is_abstract_def Needs_def Let_def
        abc_world_def sim_world_def sim_manager_def Component_init_def upd_inst_def
        subscribe_def bus_subscribe_def)
  have a: "addressed_to ?w' evA 0" by (simp add: addressed_to_def evA_def)
  have t: "ev_type evA = ''ping''" by (simp add: evA_def)
  from add_component_keeps_subscriptions [OF run] p s0 a t
  have "(0, evA) \<in> set (deliveries (new_calls ?w' (bus_tick ?w')))" by simp
  with r g s0 s1 show ?thesis by simp
qed

theorem add_component_subscribes_counterexample:
  "subscribers (bus sim_world) ''ping'' = [0] \<and>
   subscribers (bus (snd (add_component sim_manager Needs [] [] sim_world))) ''ping'' = [0, 2]"
  by (simp add: add_component_def construct_def is_abstract_def Needs_def Let_def
        sim_world_def sim_manager_def Component_init_def upd_inst_def
        subscribe_def bus_subscribe_def)

end
